theory Spec2Isabelle
  imports Main
begin

section \<open>Exceptions of the loader\<close>

text \<open>
  Every exception the modelled code can raise is a value.  The first four are Python's own;
  the last is the error PostgreSQL reports for a statement that names a table which is
  not part of it (see \<open>CORRECT_TRADING_STATUS\<close> below).
\<close>

datatype error =
    ValueError
  | KeyError
  | IndexError
  | OverflowError
  | UndefinedTable

section \<open>Interval arithmetic (\<^verbatim>\<open>date_helpers.py\<close>)\<close>

subsection \<open>Python's \<^verbatim>\<open>int(str)\<close>\<close>

text \<open>
  \<^verbatim>\<open>int(s)\<close> in base ten strips surrounding white space, reads an optional sign and then
  decimal digits, where single underscores may separate digits.  Characters are the code
  points below 256.  The white space skipped is that of the C locale, the code points 9 to 13 and
  the blank; of the code points from 127 on, \<^verbatim>\<open>int\<close> first turns the two that are Unicode
  white space (133 and 160) into blanks.  The separators 28 to 31 are not skipped.  A
  numeral of more than \<^verbatim>\<open>sys.int_info.default_max_str_digits\<close> = 4300 digits is rejected,
  as every other malformed numeral is, with \<^verbatim>\<open>ValueError\<close>.
\<close>

definition py_isspace :: "char \<Rightarrow> bool" where
  "py_isspace c \<longleftrightarrow> of_char c \<in> set [9, 10, 11, 12, 13, 32, 133, 160 :: nat]"

definition int_max_str_digits :: nat where
  "int_max_str_digits = 4300"

definition py_strip :: "string \<Rightarrow> string" where
  "py_strip s = rev (dropWhile py_isspace (rev (dropWhile py_isspace s)))"

definition is_digit :: "char \<Rightarrow> bool" where
  "is_digit c \<longleftrightarrow> (48::nat) \<le> of_char c \<and> of_char c \<le> (57::nat)"

definition digit_val :: "char \<Rightarrow> int" where
  "digit_val c = int (of_char c) - 48"

fun py_digits :: "int \<Rightarrow> string \<Rightarrow> int option" where
  "py_digits acc [] = Some acc"
| "py_digits acc (c # cs) =
     (if c = CHR ''_'' then
        (case cs of
           [] \<Rightarrow> None
         | d # ds \<Rightarrow> if is_digit d then py_digits (10 * acc + digit_val d) ds else None)
      else if is_digit c then py_digits (10 * acc + digit_val c) cs
      else None)"

definition py_unsigned :: "string \<Rightarrow> int option" where
  "py_unsigned s =
     (case s of
        [] \<Rightarrow> None
      | c # cs \<Rightarrow>
          if is_digit c then
            (case py_digits (digit_val c) cs of
               None \<Rightarrow> None
             | Some v \<Rightarrow>
                 if int_max_str_digits < length (filter is_digit s) then None else Some v)
          else None)"

definition py_int :: "string \<Rightarrow> int option" where
  "py_int s =
     (case py_strip s of
        [] \<Rightarrow> None
      | c # cs \<Rightarrow>
          if c = CHR ''+'' then py_unsigned cs
          else if c = CHR ''-'' then map_option uminus (py_unsigned cs)
          else py_unsigned (c # cs))"

subsection \<open>Durations and timestamps\<close>

text \<open>
  A \<^verbatim>\<open>timedelta\<close> built from whole seconds is the number of seconds; the constructor raises
  \<^verbatim>\<open>OverflowError\<close> when the normalised day count leaves \<open>\<plusminus>999999999\<close>.  A
  \<^verbatim>\<open>datetime\<close> is the number of microseconds since 1970-01-01T00:00:00 UTC and ranges
  from \<^verbatim>\<open>datetime.min\<close> to \<^verbatim>\<open>datetime.max\<close>.
\<close>

type_synonym timedelta = int
type_synonym datetime = int

definition timedelta_seconds :: "int \<Rightarrow> error + timedelta" where
  "timedelta_seconds s =
     (if - 999999999 \<le> s div 86400 \<and> s div 86400 \<le> 999999999 then Inr s
      else Inl OverflowError)"

definition datetime_min :: datetime where
  "datetime_min = - 62135596800000000"

definition datetime_max :: datetime where
  "datetime_max = 253402300799999999"

definition datetime_add :: "datetime \<Rightarrow> timedelta \<Rightarrow> error + datetime" where
  "datetime_add t d =
     (let r = t + 1000000 * d
      in if datetime_min \<le> r \<and> r \<le> datetime_max then Inr r else Inl OverflowError)"

subsection \<open>The functions of \<^verbatim>\<open>date_helpers.py\<close>\<close>

definition SECONDS_PER_UNIT :: "char \<rightharpoonup> int" where
  "SECONDS_PER_UNIT =
     [CHR ''m'' \<mapsto> 60,
      CHR ''h'' \<mapsto> 60 * 60,
      CHR ''d'' \<mapsto> 24 * 60 * 60,
      CHR ''w'' \<mapsto> 7 * 24 * 60 * 60]"

text \<open>
  \<^verbatim>\<open>value = int(interval_str[:-1])\<close> is evaluated first, so an empty or one-character
  string already fails there with \<^verbatim>\<open>ValueError\<close>; the look-up of the last character
  is reached only for a string of two characters or more.
\<close>

definition parse_interval_to_timedelta :: "string \<Rightarrow> error + timedelta" where
  "parse_interval_to_timedelta interval_str =
     (case py_int (butlast interval_str) of
        None \<Rightarrow> Inl ValueError
      | Some v \<Rightarrow>
          (case SECONDS_PER_UNIT (last interval_str) of
             None \<Rightarrow> Inl KeyError
           | Some u \<Rightarrow> timedelta_seconds (v * u)))"

definition get_next_interval :: "string \<Rightarrow> datetime \<Rightarrow> error + datetime" where
  "get_next_interval interval ts =
     (case parse_interval_to_timedelta interval of
        Inl e \<Rightarrow> Inl e
      | Inr d \<Rightarrow> datetime_add ts d)"

text \<open>
  \<^verbatim>\<open>datetime_to_binance_timestamp\<close> goes through a floating-point number of seconds; the
  conversion is the parameter \<open>to_ms\<close> of \<open>check_active\<close>.  The clock reading
  \<^verbatim>\<open>datetime.utcnow()\<close> is the parameter \<open>now\<close>.
\<close>

definition check_active :: "(datetime \<Rightarrow> int) \<Rightarrow> string \<Rightarrow> datetime \<Rightarrow> datetime \<Rightarrow> error + bool" where
  "check_active to_ms interval now d =
     (let ts = to_ms d in
      case py_int (butlast interval) of
        None \<Rightarrow> Inl ValueError
      | Some v \<Rightarrow>
          (case SECONDS_PER_UNIT (last interval) of
             None \<Rightarrow> Inl KeyError
           | Some u \<Rightarrow>
               (let lag1 = v * u * 1000; now_ms = to_ms now
                in if now_ms - lag1 \<ge> ts then Inr False else Inr True)))"




section \<open>Record model\<close>

text \<open>
  A provider bar is the \<^verbatim>\<open>Bar\<close> of the Alpaca client library.  Its numbers have the
  library's numeric type \<open>'n\<close>; \<^verbatim>\<open>bar.volume * bar.vwap\<close> is a product in that type.
  \<^verbatim>\<open>Decimal(...)\<close> and \<^verbatim>\<open>int(...)\<close> are the conversions \<open>Decimal\<close> and \<open>to_int\<close>
  of the surrounding world (see \<open>world\<close> below), taken as total on the numbers a bar
  carries.
\<close>

record 'n Bar =
  b_symbol :: string
  b_timestamp :: datetime
  b_open :: 'n
  b_high :: 'n
  b_low :: 'n
  b_close :: 'n
  b_volume :: 'n
  b_trade_count :: 'n
  b_vwap :: 'n

text \<open>\<^verbatim>\<open>BarRecord\<close> of \<^verbatim>\<open>model/bar_record.py\<close>; the field \<^verbatim>\<open>id\<close> is \<open>rid\<close>.\<close>

record 'd BarRecord =
  rid :: int
  symbol :: string
  open_time :: datetime
  open_price :: 'd
  high_price :: 'd
  low_price :: 'd
  close_price :: 'd
  volume_stock :: 'd
  volume_dollar :: 'd
  vwap :: 'd
  trades :: int

definition build_record ::
  "('n::times \<Rightarrow> 'd) \<Rightarrow> ('n \<Rightarrow> int) \<Rightarrow> int \<Rightarrow> 'n Bar \<Rightarrow> 'd BarRecord" where
  "build_record Decimal to_int i bar =
     \<lparr> rid = i,
       symbol = b_symbol bar,
       open_time = b_timestamp bar,
       open_price = Decimal (b_open bar),
       high_price = Decimal (b_high bar),
       low_price = Decimal (b_low bar),
       close_price = Decimal (b_close bar),
       volume_stock = Decimal (b_volume bar),
       volume_dollar = Decimal (b_volume bar * b_vwap bar),
       vwap = Decimal (b_vwap bar),
       trades = to_int (b_trade_count bar) \<rparr>"

text \<open>
  Modelled from the spec: the class \<^verbatim>\<open>Latest\<close> (\<^verbatim>\<open>alpaca_spot_loader.model\<close>) is not
  among the sources.  The spec's LatestCheckpoint holds the symbol, the id of the most
  recently known bar, that bar's open timestamp, the \<open>active\<close> flag and the source name,
  which are the five columns of \<^verbatim>\<open>SpotLatestQueries.UPSERT\<close> and the five items
  \<^verbatim>\<open>latest_closed\<close> hands to \<^verbatim>\<open>Latest.build_record\<close>, in this order.
\<close>

record Latest =
  l_symbol :: string
  l_id :: int
  latest_close :: datetime
  active :: bool
  source :: string

definition Latest_build_record :: "string \<Rightarrow> int \<Rightarrow> datetime \<Rightarrow> bool \<Rightarrow> string \<Rightarrow> Latest" where
  "Latest_build_record s i t a src =
     \<lparr> l_symbol = s, l_id = i, latest_close = t, active = a, source = src \<rparr>"

section \<open>Storage\<close>

text \<open>
  Modelled from the spec: the class \<^verbatim>\<open>Target\<close> (\<^verbatim>\<open>persistance/target.py\<close>) is not among
  the sources.  Its state is the two tables as committed, the two tables as the open
  transaction of the connection sees them, and the id sequence.  \<open>execute\<close> of a
  statement changes the transaction's view, \<open>commit_transaction\<close> makes that view the
  committed one, and reads go through the connection, hence see the transaction's view.
  \<open>get_next_ids\<close> hands out a block of consecutive ids of the requested size,
  \<open>get_latest\<close> the rows \<^verbatim>\<open>(symbol, latest_close, active)\<close> of all checkpoints, and
  \<open>get_inactive_symbols\<close> the symbols checkpointed \<^verbatim>\<open>active=false\<close>.
\<close>

record 'd Target =
  spot :: "'d BarRecord list"
  spot_latest :: "Latest list"
  tx_spot :: "'d BarRecord list"
  tx_latest :: "Latest list"
  next_id :: int

definition commit_transaction :: "'d Target \<Rightarrow> 'd Target" where
  "commit_transaction t = t\<lparr>spot := tx_spot t, spot_latest := tx_latest t\<rparr>"

definition get_next_ids :: "nat \<Rightarrow> 'd Target \<Rightarrow> int list \<times> 'd Target" where
  "get_next_ids n t =
     (map (\<lambda>k. next_id t + int k) [0..<n], t\<lparr>next_id := next_id t + int n\<rparr>)"

definition get_latest :: "'d Target \<Rightarrow> (string \<times> datetime \<times> bool) list" where
  "get_latest t = map (\<lambda>l. (l_symbol l, latest_close l, active l)) (tx_latest t)"

definition get_inactive_symbols :: "'d Target \<Rightarrow> string list" where
  "get_inactive_symbols t = map l_symbol (filter (\<lambda>l. \<not> active l) (tx_latest t))"

subsection \<open>The statements of \<^verbatim>\<open>queries/spot.py\<close> and \<^verbatim>\<open>queries/spot_latest.py\<close>\<close>

text \<open>
  \<^verbatim>\<open>INSERT ... ON CONFLICT (key) DO UPDATE SET ...\<close>, one row: a stored row with the same
  key is replaced by \<open>upd new old\<close>, otherwise the row is appended.  The rows of a
  statement are applied in the order given.
\<close>

fun upsert_row :: "('r \<Rightarrow> 'k) \<Rightarrow> ('r \<Rightarrow> 'r \<Rightarrow> 'r) \<Rightarrow> 'r \<Rightarrow> 'r list \<Rightarrow> 'r list" where
  "upsert_row key upd r [] = [r]"
| "upsert_row key upd r (x # xs) =
     (if key x = key r then upd r x # xs else x # upsert_row key upd r xs)"

text \<open>
  \<^verbatim>\<open>SpotQueries.UPSERT\<close>: the conflict key is \<^verbatim>\<open>(symbol, open_time)\<close>; the update sets every
  column but \<^verbatim>\<open>id\<close>, so a stored row keeps its id.
\<close>

definition spot_key :: "'d BarRecord \<Rightarrow> string \<times> datetime" where
  "spot_key r = (symbol r, open_time r)"

definition spot_update :: "'d BarRecord \<Rightarrow> 'd BarRecord \<Rightarrow> 'd BarRecord" where
  "spot_update new old = new\<lparr>rid := rid old\<rparr>"

definition spot_UPSERT :: "'d BarRecord list \<Rightarrow> 'd BarRecord list \<Rightarrow> 'd BarRecord list" where
  "spot_UPSERT rows tbl = fold (upsert_row spot_key spot_update) rows tbl"

text \<open>
  \<^verbatim>\<open>SpotLatestQueries.UPSERT\<close>: the conflict key is \<^verbatim>\<open>symbol\<close>; the update sets all five
  columns.
\<close>

definition latest_UPSERT :: "Latest list \<Rightarrow> Latest list \<Rightarrow> Latest list" where
  "latest_UPSERT rows tbl = fold (upsert_row l_symbol (\<lambda>new old. new)) rows tbl"

text \<open>
  \<^verbatim>\<open>SpotLatestQueries.CORRECT_TRADING_STATUS\<close> updates the table
  \<^verbatim>\<open>alpaca.spot_{interval}_latest\<close>, but its \<^verbatim>\<open>WHERE\<close> clause names \<^verbatim>\<open>spot_1h_latest\<close>: the
  statement is accepted only when both are the same table.  Then every stored row whose
  symbol has a row in \<open>data\<close> takes that row's \<open>active\<close> value.
\<close>

definition latest_table :: "string \<Rightarrow> string" where
  "latest_table interval = ''spot_'' @ interval @ ''_latest''"

definition CORRECT_TRADING_STATUS ::
  "string \<Rightarrow> (string \<times> bool) list \<Rightarrow> Latest list \<Rightarrow> error + Latest list" where
  "CORRECT_TRADING_STATUS interval data tbl =
     (if latest_table interval = ''spot_1h_latest'' then
        Inr (map (\<lambda>l. case map_of data (l_symbol l) of
                         None \<Rightarrow> l
                       | Some a \<Rightarrow> l\<lparr>active := a\<rparr>) tbl)
      else Inl UndefinedTable)"

section \<open>The world outside the loader\<close>

text \<open>
  What one cycle receives from outside: the two numeric conversions, the conversion of a
  \<^verbatim>\<open>datetime\<close> to milliseconds, the answer of \<^verbatim>\<open>Source.get_bars\<close> to the \<open>k\<close>-th request of
  the cycle for a symbol and a start time (\<open>None\<close> where the source returns \<^verbatim>\<open>None\<close>), the
  clock reading while the \<open>k\<close>-th symbol is processed, the assets the trading client
  lists with their \<^verbatim>\<open>tradable\<close> flags (\<open>None\<close> for an \<^verbatim>\<open>APIError\<close>), and the index
  \<^verbatim>\<open>secrets.choice\<close> draws.
\<close>

record ('n, 'd) world =
  Decimal :: "'n \<Rightarrow> 'd"
  to_int :: "'n \<Rightarrow> int"
  to_ms :: "datetime \<Rightarrow> int"
  get_bars :: "nat \<Rightarrow> string \<Rightarrow> datetime \<Rightarrow> 'n Bar list option"
  utcnow :: "nat \<Rightarrow> datetime"
  get_all_assets :: "(string \<times> bool) list option"
  draw :: nat

text \<open>\<^verbatim>\<open>Source.get_trading_status\<close> of \<^verbatim>\<open>persistance/source.py\<close>.\<close>

definition get_trading_status ::
  "(string \<times> bool) list option \<Rightarrow> string list \<Rightarrow> (string \<times> bool) list option" where
  "get_trading_status assets symbols =
     (case assets of
        None \<Rightarrow> None
      | Some as \<Rightarrow>
          Some (if symbols \<noteq> [] then filter (\<lambda>(s, tradable). s \<in> set symbols) as else []))"

definition py_choice :: "'a list \<Rightarrow> nat \<Rightarrow> 'a" where
  "py_choice seq k = seq ! (k mod length seq)"

section \<open>The loader (\<^verbatim>\<open>__main__.py\<close>)\<close>

text \<open>
  The fields of \<^verbatim>\<open>Loader\<close> that the cycle reads or writes.  The request counter of
  \<^verbatim>\<open>check_request_limit\<close> only delays the next request and is left out.
\<close>

record Loader =
  source_name :: string
  mode :: string
  interval :: string
  n_active_symbols :: nat

definition BATCH_SIZE :: nat where
  "BATCH_SIZE = 1000"

definition persist_records :: "'d BarRecord list \<Rightarrow> Latest list \<Rightarrow> 'd Target \<Rightarrow> 'd Target" where
  "persist_records records latest_records t =
     (let t1 = t\<lparr>tx_spot := spot_UPSERT records (tx_spot t)\<rparr>;
          t2 = t1\<lparr>tx_latest := latest_UPSERT latest_records (tx_latest t1)\<rparr>
      in commit_transaction t2)"

subsection \<open>\<^verbatim>\<open>get_keys\<close>\<close>

fun active_keys :: "string \<Rightarrow> (string \<times> datetime \<times> bool) list \<Rightarrow> error + (string \<times> datetime) list" where
  "active_keys iv [] = Inr []"
| "active_keys iv ((s, lc, a) # rest) =
     (if a then
        (case get_next_interval iv lc of
           Inl e \<Rightarrow> Inl e
         | Inr ts \<Rightarrow>
             (case active_keys iv rest of
                Inl e \<Rightarrow> Inl e
              | Inr ks \<Rightarrow> Inr ((s, ts) # ks)))
      else active_keys iv rest)"

text \<open>
  \<^verbatim>\<open>list(set(symbol_lst) - set(...))\<close> has no duplicates and an order Python does not fix;
  the model lists the new symbols in the order of their first occurrence in
  \<open>symbol_lst\<close>.
\<close>

definition earliest :: datetime where
  "earliest = datetime_min + 86400000000"

definition get_keys ::
  "Loader \<Rightarrow> 'd Target \<Rightarrow> string list \<Rightarrow> error + ((string \<times> datetime) list \<times> Loader)" where
  "get_keys L t symbol_lst =
     (let latest = get_latest t in
      case (if latest \<noteq> [] then active_keys (interval L) latest else Inr []) of
        Inl e \<Rightarrow> Inl e
      | Inr ks \<Rightarrow>
          (let new_symbols =
                 (if latest \<noteq> []
                  then remdups (filter (\<lambda>s. s \<notin> set (map fst latest)) symbol_lst)
                  else symbol_lst);
               keys = ks @ map (\<lambda>s. (s, earliest)) new_symbols
           in Inr (keys, L\<lparr>n_active_symbols := length keys\<rparr>)))"

subsection \<open>\<^verbatim>\<open>latest_closed\<close>\<close>

definition latest_closed ::
  "(datetime \<Rightarrow> int) \<Rightarrow> Loader \<Rightarrow> datetime \<Rightarrow> string \<Rightarrow> 'd BarRecord list \<Rightarrow> error + Latest option" where
  "latest_closed ms L now s record_objs =
     (if length record_objs > 1 then
        (let last_closed_bar = record_objs ! (length record_objs - 2)
         in Inr (Some (Latest_build_record s (rid last_closed_bar) (open_time last_closed_bar)
                         True (source_name L))))
      else
        (case record_objs of
           [] \<Rightarrow> Inl IndexError
         | last_bar # _ \<Rightarrow>
             (case check_active ms (interval L) now (open_time last_bar) of
                Inl e \<Rightarrow> Inl e
              | Inr a \<Rightarrow>
                  if \<not> a then
                    Inr (Some (Latest_build_record s (rid last_bar) (open_time last_bar)
                                 a (source_name L)))
                  else Inr None)))"

subsection \<open>\<^verbatim>\<open>load_from_keys\<close>\<close>

text \<open>
  The local variables of \<^verbatim>\<open>load_from_keys\<close>, the storage, and two traces: the requests
  sent to \<^verbatim>\<open>Source.get_bars\<close> and the calls of \<^verbatim>\<open>persist_records\<close> with their arguments.
\<close>

record 'd load_state =
  record_objs :: "'d BarRecord list"
  new_latest :: "Latest option list"
  processed_symbols :: nat
  persisted_records :: nat
  target :: "'d Target"
  requests :: "(string \<times> datetime) list"
  flushes :: "('d BarRecord list \<times> Latest list) list"

definition init_state :: "'d Target \<Rightarrow> 'd load_state" where
  "init_state t =
     \<lparr> record_objs = [], new_latest = [], processed_symbols = 0, persisted_records = 0,
       target = t, requests = [], flushes = [] \<rparr>"

text \<open>The batch persistence at the end of the loop body.\<close>

definition flush_due :: "Loader \<Rightarrow> 'd load_state \<Rightarrow> bool" where
  "flush_due L st \<longleftrightarrow>
     record_objs st \<noteq> [] \<and>
     (processed_symbols st mod BATCH_SIZE = 0 \<or> processed_symbols st = n_active_symbols L)"

definition batch_persistence :: "Loader \<Rightarrow> 'd load_state \<Rightarrow> 'd load_state" where
  "batch_persistence L st =
     (if flush_due L st then
        (let records = record_objs st;
             latest_records = List.map_filter (\<lambda>r. r) (new_latest st)
         in st\<lparr> target := persist_records records latest_records (target st),
                flushes := flushes st @ [(records, latest_records)],
                persisted_records := persisted_records st + length records,
                record_objs := [],
                new_latest := [] \<rparr>)
      else st)"

text \<open>
  \<^verbatim>\<open>for bar, record_id in zip(bars, record_ids): symbol_record_objs.append(...)\<close>
\<close>

definition symbol_records ::
  "('n::times, 'd) world \<Rightarrow> 'n Bar list \<Rightarrow> int list \<Rightarrow> 'd BarRecord list" where
  "symbol_records w bars record_ids =
     map (\<lambda>(bar, record_id). build_record (Decimal w) (to_int w) record_id bar)
       (zip bars record_ids)"

text \<open>
  One pass through the loop body for the key \<open>(s, start_time)\<close>.  An exception leaves the
  loop with the state reached so far.
\<close>

definition process_key ::
  "('n::times, 'd) world \<Rightarrow> Loader \<Rightarrow> string \<times> datetime \<Rightarrow> 'd load_state
     \<Rightarrow> error option \<times> 'd load_state" where
  "process_key w L key st =
     (case key of (s, start_time) \<Rightarrow>
       (let k = processed_symbols st + 1;
            st1 = st\<lparr>processed_symbols := k, requests := requests st @ [(s, start_time)]\<rparr>
        in case get_bars w k s start_time of
             None \<Rightarrow> (None, batch_persistence L st1)
           | Some bars \<Rightarrow>
               if bars = [] then (None, batch_persistence L st1)
               else
                 (case get_next_ids (length bars) (target st1) of (record_ids, t1) \<Rightarrow>
                   (let symbol_record_objs = symbol_records w bars record_ids;
                        st2 = st1\<lparr>target := t1\<rparr>
                    in case latest_closed (to_ms w) L (utcnow w k) s symbol_record_objs of
                         Inl e \<Rightarrow> (Some e, st2)
                       | Inr l \<Rightarrow>
                           (None,
                            batch_persistence L
                              (st2\<lparr> new_latest := new_latest st2 @ [l],
                                    record_objs := record_objs st2 @ symbol_record_objs \<rparr>))))))"

fun load_loop ::
  "('n::times, 'd) world \<Rightarrow> Loader \<Rightarrow> (string \<times> datetime) list \<Rightarrow> 'd load_state
     \<Rightarrow> error option \<times> 'd load_state" where
  "load_loop w L [] st = (None, st)"
| "load_loop w L (key # keys) st =
     (case process_key w L key st of
        (Some e, st') \<Rightarrow> (Some e, st')
      | (None, st') \<Rightarrow> load_loop w L keys st')"

definition load_from_keys ::
  "('n::times, 'd) world \<Rightarrow> Loader \<Rightarrow> (string \<times> datetime) list \<Rightarrow> 'd Target
     \<Rightarrow> error option \<times> 'd load_state" where
  "load_from_keys w L keys t = load_loop w L keys (init_state t)"

subsection \<open>\<^verbatim>\<open>check_trading_status\<close>\<close>

definition check_trading_status ::
  "('n, 'd) world \<Rightarrow> Loader \<Rightarrow> 'd Target \<Rightarrow> error + 'd Target" where
  "check_trading_status w L t =
     (let inactive_symbols = get_inactive_symbols t;
          trading_status = get_trading_status (get_all_assets w) inactive_symbols
      in case trading_status of
           None \<Rightarrow> Inr t
         | Some ts \<Rightarrow>
             if ts \<noteq> [] then
               (let active_symbols = filter (\<lambda>(s, a). a) ts
                in if active_symbols \<noteq> [] then
                     (case CORRECT_TRADING_STATUS (interval L) active_symbols (tx_latest t) of
                        Inl e \<Rightarrow> Inl e
                      | Inr tbl \<Rightarrow> Inr (commit_transaction (t\<lparr>tx_latest := tbl\<rparr>)))
                   else Inr t)
             else Inr t)"

subsection \<open>\<^verbatim>\<open>run_once\<close> and \<^verbatim>\<open>run_as_service\<close>\<close>

definition run_once ::
  "('n::times, 'd) world \<Rightarrow> Loader \<Rightarrow> string list \<Rightarrow> 'd Target
     \<Rightarrow> error option \<times> Loader \<times> 'd load_state" where
  "run_once w L symbol_lst t =
     (let L1 = L\<lparr>mode := ''SLOW''\<rparr> in
      case check_trading_status w L1 t of
        Inl e \<Rightarrow> (Some e, L1, init_state t)
      | Inr t1 \<Rightarrow>
          (case get_keys L1 t1 symbol_lst of
             Inl e \<Rightarrow> (Some e, L1, init_state t1)
           | Inr (keys, L2) \<Rightarrow>
               (case load_from_keys w L2 keys t1 of
                  (Some e, st) \<Rightarrow> (Some e, L2, st)
                | (None, st) \<Rightarrow>
                    (None,
                     if persisted_records st > n_active_symbols L2
                     then L2\<lparr>mode := ''FAST''\<rparr> else L2,
                     st))))"

text \<open>
  The waiting time chosen in the loop of \<^verbatim>\<open>run_as_service\<close>.  In the slow mode
  \<^verbatim>\<open>int(interval_to_seconds(...) / 4)\<close> divides a floating-point number of seconds by four and
  truncates towards zero, which for durations below \<open>2 ^ 53\<close> seconds is the integer
  computed here.
\<close>

definition waiting_time :: "nat \<Rightarrow> Loader \<Rightarrow> error + int option" where
  "waiting_time k L =
     (if mode L = ''FAST'' then Inr (Some (py_choice ([1, 5] @ map int [1..<5]) k))
      else if mode L = ''SLOW'' then
        (case parse_interval_to_timedelta (interval L) of
           Inl e \<Rightarrow> Inl e
         | Inr secs \<Rightarrow>
             (let interval_sec = (if 0 \<le> secs then secs div 4 else - ((- secs) div 4))
              in Inr (Some (py_choice
                              ([interval_sec, interval_sec + 10]
                               @ map (\<lambda>i. interval_sec + int i) [0..<10]) k))))
      else Inr None)"

text \<open>
  The service loop over the worlds of the successive cycles.  It ends when a cycle raises,
  when no waiting time is selected (\<^verbatim>\<open>if t:\<close> fails for zero), when \<^verbatim>\<open>time.sleep\<close> raises
  for a negative time, or with the last world given; the result is the loader, the
  storage and the waiting times slept.
\<close>

fun service_loop ::
  "('n::times, 'd) world list \<Rightarrow> string list \<Rightarrow> Loader \<Rightarrow> 'd Target \<Rightarrow> int list
     \<Rightarrow> Loader \<times> 'd Target \<times> int list" where
  "service_loop [] symbol_list L t slept = (L, t, slept)"
| "service_loop (w # ws) symbol_list L t slept =
     (case run_once w L symbol_list t of
        (Some e, L', st) \<Rightarrow> (L', target st, slept)
      | (None, L', st) \<Rightarrow>
          (case waiting_time (draw w) L' of
             Inl e \<Rightarrow> (L', target st, slept)
           | Inr None \<Rightarrow> (L', target st, slept)
           | Inr (Some wt) \<Rightarrow>
               if wt \<noteq> 0 then
                 (if wt < 0 then (L', target st, slept)
                  else service_loop ws symbol_list L' (target st) (slept @ [wt]))
               else (L', target st, slept)))"

definition run_as_service ::
  "('n::times, 'd) world list \<Rightarrow> string list option \<Rightarrow> Loader \<Rightarrow> 'd Target
     \<Rightarrow> Loader \<times> 'd Target \<times> int list" where
  "run_as_service ws symbol_list L t =
     (case symbol_list of
        None \<Rightarrow> (L, t, [])
      | Some syms \<Rightarrow> if syms = [] then (L, t, []) else service_loop ws syms L t [])"

section \<open>Example data\<close>

text \<open>
  Concrete loaders, bars and worlds at which the theorems below are evaluated.  Numbers
  are integers, \<open>Decimal\<close> and \<open>to_int\<close> copy them, and a \<^verbatim>\<open>datetime\<close> becomes milliseconds
  by integer division.
\<close>

definition hour :: datetime where
  "hour = 3600000000"

definition loader_1h :: Loader where
  "loader_1h = \<lparr> source_name = ''ALPACA'', mode = ''FAST'', interval = ''1h'',
                 n_active_symbols = 0 \<rparr>"

definition ms_of :: "datetime \<Rightarrow> int" where
  "ms_of d = d div 1000"

definition bar_at :: "string \<Rightarrow> datetime \<Rightarrow> int Bar" where
  "bar_at s ts =
     \<lparr> b_symbol = s, b_timestamp = ts, b_open = 10, b_high = 12, b_low = 9, b_close = 11,
       b_volume = 100, b_trade_count = 7, b_vwap = 10 \<rparr>"

definition record_at :: "int \<Rightarrow> string \<Rightarrow> datetime \<Rightarrow> int BarRecord" where
  "record_at i s ts = build_record (\<lambda>x. x) (\<lambda>x. x) i (bar_at s ts)"

definition world_of ::
  "(nat \<Rightarrow> string \<Rightarrow> datetime \<Rightarrow> int Bar list option) \<Rightarrow> (nat \<Rightarrow> datetime)
     \<Rightarrow> (string \<times> bool) list option \<Rightarrow> (int, int) world" where
  "world_of answers clock assets =
     \<lparr> Decimal = (\<lambda>x. x), to_int = (\<lambda>x. x), to_ms = ms_of, get_bars = answers,
       utcnow = clock, get_all_assets = assets, draw = 0 \<rparr>"

definition no_bars :: "nat \<Rightarrow> string \<Rightarrow> datetime \<Rightarrow> int Bar list option" where
  "no_bars k s ts = None"

definition noon :: "nat \<Rightarrow> datetime" where
  "noon k = 12 * hour"

definition empty_target :: "int Target" where
  "empty_target = \<lparr> spot = [], spot_latest = [], tx_spot = [], tx_latest = [], next_id = 1 \<rparr>"

text \<open>The bars the \<open>k\<close>-th request of a cycle returns, \<^verbatim>\<open>None\<close> read as no bars.\<close>

definition fetched :: "('n, 'd) world \<Rightarrow> nat \<Rightarrow> string \<times> datetime \<Rightarrow> 'n Bar list" where
  "fetched w k key = (case get_bars w k (fst key) (snd key) of None \<Rightarrow> [] | Some bars \<Rightarrow> bars)"

text \<open>
  Everything the loop has emitted so far, flushed or still pending: the records and the
  checkpoints.
\<close>

definition emitted_records :: "'d load_state \<Rightarrow> 'd BarRecord list" where
  "emitted_records st = concat (map fst (flushes st)) @ record_objs st"

definition emitted_latest :: "'d load_state \<Rightarrow> Latest list" where
  "emitted_latest st = concat (map snd (flushes st)) @ List.map_filter (\<lambda>r. r) (new_latest st)"

text \<open>
  What one pass of the loop adds to the pending batch for the key it processes: the records
  built from the bars fetched, with the ids handed out for them, and the result of
  \<^verbatim>\<open>latest_closed\<close> on these records (nothing when no bar was fetched).
\<close>

definition key_records :: "('n::times, 'd) world \<Rightarrow> 'd load_state \<Rightarrow> string \<times> datetime
    \<Rightarrow> 'd BarRecord list" where
  "key_records w st key =
     (let bars = fetched w (processed_symbols st + 1) key
      in symbol_records w bars (fst (get_next_ids (length bars) (target st))))"

definition key_checkpoint :: "('n::times, 'd) world \<Rightarrow> Loader \<Rightarrow> 'd load_state
    \<Rightarrow> string \<times> datetime \<Rightarrow> Latest option list" where
  "key_checkpoint w L st key =
     (if fetched w (processed_symbols st + 1) key = [] then []
      else (case latest_closed (to_ms w) L (utcnow w (processed_symbols st + 1)) (fst key)
                   (key_records w st key) of
              Inl e \<Rightarrow> []
            | Inr l \<Rightarrow> [l]))"

text \<open>The storage after the ids for the bars of a key have been handed out.\<close>

definition ids_taken :: "('n, 'd) world \<Rightarrow> 'd load_state \<Rightarrow> string \<times> datetime \<Rightarrow> 'd Target" where
  "ids_taken w st key =
     (if fetched w (processed_symbols st + 1) key = [] then target st
      else snd (get_next_ids (length (fetched w (processed_symbols st + 1) key)) (target st)))"

definition three_bars :: "nat \<Rightarrow> string \<Rightarrow> datetime \<Rightarrow> int Bar list option" where
  "three_bars k s ts =
     (if s = ''XYZ''
      then Some [bar_at ''XYZ'' 0, bar_at ''XYZ'' hour, bar_at ''XYZ'' (2 * hour)]
      else None)"

fun hourly_bars :: "string \<Rightarrow> datetime \<Rightarrow> nat \<Rightarrow> int Bar list" where
  "hourly_bars s ts 0 = []"
| "hourly_bars s ts (Suc n) = bar_at s ts # hourly_bars s (ts + hour) n"

definition backlog :: "nat \<Rightarrow> string \<Rightarrow> datetime \<Rightarrow> int Bar list option" where
  "backlog k s ts =
     (if s = ''A'' then Some (hourly_bars ''A'' 0 600)
      else if s = ''B'' then Some (hourly_bars ''B'' 0 600)
      else if s = ''C'' then Some (hourly_bars ''C'' 0 1)
      else None)"

text \<open>A store whose only checkpoint is switched off, and a provider that reports it tradable.\<close>

definition dormant_checkpoint :: Latest where
  "dormant_checkpoint =
     \<lparr> l_symbol = ''XYZ'', l_id = 1, latest_close = 0, active = False, source = ''ALPACA'' \<rparr>"

definition dormant_target :: "int Target" where
  "dormant_target =
     \<lparr> spot = [], spot_latest = [dormant_checkpoint], tx_spot = [],
       tx_latest = [dormant_checkpoint], next_id = 2 \<rparr>"

definition tradable_again :: "(string \<times> bool) list option" where
  "tradable_again = Some [(''XYZ'', True)]"

text \<open>A provider that answers every request with the two bars starting at the requested time.\<close>

definition later_bars :: "nat \<Rightarrow> string \<Rightarrow> datetime \<Rightarrow> int Bar list option" where
  "later_bars k s ts = Some [bar_at s ts, bar_at s (ts + hour)]"

section \<open>Interval arithmetic: properties\<close>





















lemmas interval_eval =
  parse_interval_to_timedelta_def py_int_def py_strip_def py_isspace_def py_unsigned_def
  is_digit_def digit_val_def SECONDS_PER_UNIT_def timedelta_seconds_def int_max_str_digits_def














lemmas example_eval =
  record_at_def build_record_def bar_at_def loader_1h_def hour_def ms_of_def
  Latest_build_record_def world_of_def no_bars_def noon_def empty_target_def

text \<open>
  Claim C1, as stated, gives the checkpoint of two or more records the flag
  \<^verbatim>\<open>active=false\<close>.  For two records the checkpoint references the first of them, which is
  the second-to-last, but its flag is \<^verbatim>\<open>True\<close>: \<^verbatim>\<open>latest_closed\<close> starts from
  \<^verbatim>\<open>active = True\<close> and hands that value on.
\<close>

theorem latest_closed_two_records_active_counterexample:
  "latest_closed ms_of loader_1h (3 * hour) ''XYZ''
     [record_at 1 ''XYZ'' 0, record_at 2 ''XYZ'' hour]
   = Inr (Some \<lparr> l_symbol = ''XYZ'', l_id = 1, latest_close = 0, active = True,
                  source = ''ALPACA'' \<rparr>)"
  by (simp add: latest_closed_def example_eval)

text \<open>
  Claim C1, amended.  For two or more records \<^verbatim>\<open>latest_closed\<close> returns a checkpoint with
  the id and the open timestamp of the second-to-last record, the symbol asked for, the
  loader's source name, and the flag \<^verbatim>\<open>active = True\<close>, so that the symbol stays in the
  fetch plan of the next cycle.
\<close>

theorem latest_closed_second_to_last:
  "1 < length rs \<Longrightarrow>
   latest_closed ms L now s rs =
     Inr (Some \<lparr> l_symbol = s,
                  l_id = rid (rs ! (length rs - 2)),
                  latest_close = open_time (rs ! (length rs - 2)),
                  active = True,
                  source = source_name L \<rparr>)"
  by (simp add: latest_closed_def Latest_build_record_def Let_def)

text \<open>
  The amended claim C1 on the scenario of three hourly bars at 00:00, 01:00 and 02:00: the
  checkpoint references the 01:00 bar.
\<close>

theorem latest_closed_second_to_last_witness:
  "1 < length [record_at 1 ''XYZ'' 0, record_at 2 ''XYZ'' hour, record_at 3 ''XYZ'' (2 * hour)]
   \<and> latest_closed ms_of loader_1h (3 * hour) ''XYZ''
        [record_at 1 ''XYZ'' 0, record_at 2 ''XYZ'' hour, record_at 3 ''XYZ'' (2 * hour)]
      = Inr (Some \<lparr> l_symbol = ''XYZ'', l_id = 2, latest_close = 3600000000, active = True,
                     source = ''ALPACA'' \<rparr>)"
  using latest_closed_second_to_last
    [of "[record_at 1 ''XYZ'' 0, record_at 2 ''XYZ'' hour, record_at 3 ''XYZ'' (2 * hour)]"
        ms_of loader_1h "3 * hour" "''XYZ''"]
  by (simp add: example_eval)

lemma check_active_formula:
  "py_int (butlast iv) = Some v \<Longrightarrow> SECONDS_PER_UNIT (last iv) = Some u \<Longrightarrow>
   check_active ms iv now d = Inr (ms now - v * u * 1000 < ms d)"
  by (auto simp: check_active_def Let_def)

text \<open>
  Claim C7.  For exactly one record \<^verbatim>\<open>latest_closed\<close> returns a checkpoint, with
  \<^verbatim>\<open>active = False\<close> and the id and open timestamp of that record, if and only if
  \<^verbatim>\<open>check_active\<close> is false for the record's open timestamp; when \<^verbatim>\<open>check_active\<close> is true it
  returns no checkpoint.  \<^verbatim>\<open>check_active\<close> itself is the test
  \<open>now - interval < timestamp\<close> in milliseconds.
\<close>

theorem latest_closed_single_record:
  "(check_active ms (interval L) now (open_time r) = Inr False \<longrightarrow>
      latest_closed ms L now s [r] =
        Inr (Some \<lparr> l_symbol = s, l_id = rid r, latest_close = open_time r, active = False,
                     source = source_name L \<rparr>))
   \<and> (check_active ms (interval L) now (open_time r) = Inr True \<longrightarrow>
        latest_closed ms L now s [r] = Inr None)
   \<and> ((\<exists>cp. latest_closed ms L now s [r] = Inr (Some cp)) \<longleftrightarrow>
        check_active ms (interval L) now (open_time r) = Inr False)
   \<and> (\<forall>cp. latest_closed ms L now s [r] = Inr (Some cp) \<longrightarrow> \<not> active cp)
   \<and> (\<forall>v u. py_int (butlast (interval L)) = Some v \<and> SECONDS_PER_UNIT (last (interval L)) = Some u
        \<longrightarrow> check_active ms (interval L) now (open_time r)
              = Inr (ms now - v * u * 1000 < ms (open_time r)))"
proof -
  have formula: "\<forall>v u. py_int (butlast (interval L)) = Some v
         \<and> SECONDS_PER_UNIT (last (interval L)) = Some u
        \<longrightarrow> check_active ms (interval L) now (open_time r)
              = Inr (ms now - v * u * 1000 < ms (open_time r))"
    using check_active_formula [of "interval L" _ _ ms now "open_time r"] by blast
  have branches:
    "(check_active ms (interval L) now (open_time r) = Inr False \<longrightarrow>
      latest_closed ms L now s [r] =
        Inr (Some \<lparr> l_symbol = s, l_id = rid r, latest_close = open_time r, active = False,
                     source = source_name L \<rparr>))
   \<and> (check_active ms (interval L) now (open_time r) = Inr True \<longrightarrow>
        latest_closed ms L now s [r] = Inr None)
   \<and> ((\<exists>cp. latest_closed ms L now s [r] = Inr (Some cp)) \<longleftrightarrow>
        check_active ms (interval L) now (open_time r) = Inr False)
   \<and> (\<forall>cp. latest_closed ms L now s [r] = Inr (Some cp) \<longrightarrow> \<not> active cp)"
  proof (cases "check_active ms (interval L) now (open_time r)")
    case (Inl e)
    then show ?thesis
      by (simp add: latest_closed_def)
  next
    case (Inr a)
    then show ?thesis
      by (cases a) (auto simp: latest_closed_def Latest_build_record_def)
  qed
  show ?thesis
    using branches formula by (intro conjI) blast+
qed

lemma check_active_1h:
  "check_active ms_of ''1h'' now d = Inr (ms_of now - 3600000 < ms_of d)"
  by (rule check_active_formula [of "''1h''" 1 3600 ms_of now d, simplified])
     (simp_all add: interval_eval)

text \<open>
  Claim C7 at two inputs with the interval \<^verbatim>\<open>1h\<close> and the clock at 03:00: the bar of 00:00
  is closed and is checkpointed with \<^verbatim>\<open>active = False\<close>; the bar of 03:00 is still open and
  yields no checkpoint.
\<close>

theorem latest_closed_single_record_witness:
  "check_active ms_of (interval loader_1h) (3 * hour) (open_time (record_at 1 ''XYZ'' 0)) = Inr False
   \<and> latest_closed ms_of loader_1h (3 * hour) ''XYZ'' [record_at 1 ''XYZ'' 0]
       = Inr (Some \<lparr> l_symbol = ''XYZ'', l_id = 1, latest_close = 0, active = False,
                      source = ''ALPACA'' \<rparr>)
   \<and> check_active ms_of (interval loader_1h) (3 * hour) (open_time (record_at 4 ''XYZ'' (3 * hour)))
       = Inr True
   \<and> latest_closed ms_of loader_1h (3 * hour) ''XYZ'' [record_at 4 ''XYZ'' (3 * hour)] = Inr None"
proof -
  have closed: "check_active ms_of (interval loader_1h) (3 * hour) (open_time (record_at 1 ''XYZ'' 0))
      = Inr False"
    by (simp add: check_active_1h example_eval)
  have opened: "check_active ms_of (interval loader_1h) (3 * hour)
      (open_time (record_at 4 ''XYZ'' (3 * hour))) = Inr True"
    by (simp add: check_active_1h example_eval)
  show ?thesis
    using closed opened
      latest_closed_single_record [of ms_of loader_1h "3 * hour" "record_at 1 ''XYZ'' 0" "''XYZ''"]
      latest_closed_single_record
        [of ms_of loader_1h "3 * hour" "record_at 4 ''XYZ'' (3 * hour)" "''XYZ''"]
    by (simp add: example_eval)
qed


lemma emitted_latest_batch_persistence [simp]:
  "emitted_latest (batch_persistence L st) = emitted_latest st"
  by (simp add: batch_persistence_def emitted_latest_def Let_def List.map_filter_simps)

lemma emitted_records_batch_persistence [simp]:
  "emitted_records (batch_persistence L st) = emitted_records st"
  by (simp add: batch_persistence_def emitted_records_def Let_def)

lemma symbol_records_length:
  "length (symbol_records w bars (fst (get_next_ids (length bars) t))) = length bars"
  by (simp add: symbol_records_def get_next_ids_def)

text \<open>
  Claim C8, as stated, makes \<^verbatim>\<open>latest_closed\<close> total on the empty list.  On the empty list
  the test \<^verbatim>\<open>len(record_objs) > 1\<close> fails and \<^verbatim>\<open>record_objs[0]\<close> raises \<^verbatim>\<open>IndexError\<close>.
\<close>

theorem latest_closed_empty_counterexample:
  "latest_closed ms_of loader_1h (3 * hour) ''ABC'' ([] :: int BarRecord list) = Inl IndexError"
  by (simp add: latest_closed_def)

text \<open>
  Claim C8, amended.  \<^verbatim>\<open>latest_closed\<close> raises \<^verbatim>\<open>IndexError\<close> on the empty list, and the
  loop of \<^verbatim>\<open>load_from_keys\<close> never hands it one: for a key whose request returns \<^verbatim>\<open>None\<close> or
  no bars the loop body raises nothing and emits neither a checkpoint nor a record, and
  for a non-empty answer the list of records built from it is non-empty.
\<close>

theorem no_bars_no_checkpoint:
  "latest_closed ms L now s ([] :: 'd BarRecord list) = Inl IndexError
   \<and> (get_bars w (processed_symbols st + 1) s start_time = None
        \<or> get_bars w (processed_symbols st + 1) s start_time = Some [] \<longrightarrow>
      fst (process_key w L (s, start_time) st) = None
      \<and> emitted_latest (snd (process_key w L (s, start_time) st)) = emitted_latest st
      \<and> emitted_records (snd (process_key w L (s, start_time) st)) = emitted_records st)
   \<and> (\<forall>bars t. bars \<noteq> [] \<longrightarrow>
        symbol_records w bars (fst (get_next_ids (length bars) t)) \<noteq> [])"
proof -
  have empty: "latest_closed ms L now s ([] :: 'd BarRecord list) = Inl IndexError"
    by (simp add: latest_closed_def)
  have skipped:
    "fst (process_key w L (s, start_time) st) = None
      \<and> emitted_latest (snd (process_key w L (s, start_time) st)) = emitted_latest st
      \<and> emitted_records (snd (process_key w L (s, start_time) st)) = emitted_records st"
    if "get_bars w (processed_symbols st + 1) s start_time = None
        \<or> get_bars w (processed_symbols st + 1) s start_time = Some []"
  proof -
    have step: "process_key w L (s, start_time) st =
      (None, batch_persistence L
         (st\<lparr>processed_symbols := processed_symbols st + 1,
             requests := requests st @ [(s, start_time)]\<rparr>))"
      using that by (auto simp: process_key_def Let_def)
    show ?thesis
      by (simp add: step) (simp add: emitted_latest_def emitted_records_def)
  qed
  have nonempty: "symbol_records w bars (fst (get_next_ids (length bars) t)) \<noteq> []"
    if "bars \<noteq> []" for bars and t :: "'f Target"
    using that symbol_records_length [of w bars t] by (metis length_0_conv)
  show ?thesis
    using empty skipped nonempty by blast
qed

text \<open>
  The amended claim C8 for the symbol \<^verbatim>\<open>ABC\<close> whose request returns nothing.
\<close>

theorem no_bars_no_checkpoint_witness:
  "(get_bars (world_of no_bars noon None) (processed_symbols (init_state empty_target) + 1)
        ''ABC'' earliest = None
    \<or> get_bars (world_of no_bars noon None) (processed_symbols (init_state empty_target) + 1)
        ''ABC'' earliest = Some [])
   \<and> fst (process_key (world_of no_bars noon None) loader_1h (''ABC'', earliest)
            (init_state empty_target)) = None
   \<and> emitted_latest (snd (process_key (world_of no_bars noon None) loader_1h (''ABC'', earliest)
            (init_state empty_target))) = []
   \<and> [bar_at ''ABC'' 0] \<noteq> []
   \<and> symbol_records (world_of no_bars noon None) [bar_at ''ABC'' 0]
         (fst (get_next_ids (length [bar_at ''ABC'' 0]) empty_target)) \<noteq> []"
proof -
  have none: "get_bars (world_of no_bars noon None)
      (processed_symbols (init_state empty_target) + 1) ''ABC'' earliest = None"
    by (simp add: world_of_def no_bars_def)
  have "fst (process_key (world_of no_bars noon None) loader_1h (''ABC'', earliest)
            (init_state empty_target)) = None
      \<and> emitted_latest (snd (process_key (world_of no_bars noon None) loader_1h
            (''ABC'', earliest) (init_state empty_target)))
          = emitted_latest (init_state empty_target)"
    using none no_bars_no_checkpoint
      [of ms_of loader_1h 0 "''ABC''" "world_of no_bars noon None" "init_state empty_target"
          earliest]
    by blast
  moreover have "emitted_latest (init_state empty_target) = []"
    by (simp add: init_state_def emitted_latest_def List.map_filter_simps)
  moreover have "symbol_records (world_of no_bars noon None) [bar_at ''ABC'' 0]
         (fst (get_next_ids (length [bar_at ''ABC'' 0]) empty_target)) \<noteq> []"
    using no_bars_no_checkpoint
      [of ms_of loader_1h 0 "''ABC''" "world_of no_bars noon None" "init_state empty_target"
          earliest]
    by blast
  ultimately show ?thesis
    using none by simp
qed

section \<open>Storage: properties\<close>

lemma fold_upsert_row_Cons:
  assumes keyupd: "\<And>r x. key x = key r \<Longrightarrow> key (upd r x) = key x"
  shows "fold (upsert_row key upd) rows (x # xs) =
           fold upd (filter (\<lambda>r. key r = key x) rows) x
           # fold (upsert_row key upd) (filter (\<lambda>r. key r \<noteq> key x) rows) xs"
proof (induction rows arbitrary: x xs)
  case Nil
  show ?case by simp
next
  case (Cons r rows)
  show ?case
  proof (cases "key x = key r")
    case True
    then have k: "key (upd r x) = key x"
      by (rule keyupd)
    show ?thesis
      using True Cons [of "upd r x" xs] by (simp add: k)
  next
    case False
    then have "key r \<noteq> key x"
      by auto
    then show ?thesis
      using False Cons [of x "upsert_row key upd r xs"] by simp
  qed
qed

lemma fold_upd_key:
  assumes keyupd: "\<And>r x. key x = key r \<Longrightarrow> key (upd r x) = key x"
  shows "\<forall>r \<in> set rows. key r = k \<Longrightarrow> key x = k \<Longrightarrow> key (fold upd rows x) = k"
  by (induction rows arbitrary: x) (simp_all add: keyupd)

lemma fold_upd_last:
  assumes override: "\<And>r r' x. upd r (upd r' x) = upd r x"
  shows "rows \<noteq> [] \<Longrightarrow> fold upd rows x = upd (last rows) x"
proof (induction rows arbitrary: x)
  case Nil
  then show ?case by simp
next
  case (Cons r rows)
  show ?case
  proof (cases "rows = []")
    case True
    then show ?thesis by simp
  next
    case False
    then show ?thesis
      using Cons.IH [of "upd r x"] by (simp add: override)
  qed
qed

lemma fold_upd_idem:
  assumes override: "\<And>r r' x. upd r (upd r' x) = upd r x"
  shows "fold upd rows (fold upd rows x) = fold upd rows x"
proof (cases "rows = []")
  case True
  then show ?thesis by simp
next
  case False
  then show ?thesis
    by (simp add: fold_upd_last [of upd, OF override] override)
qed

lemma fold_upd_absorb:
  assumes override: "\<And>r r' x. upd r (upd r' x) = upd r x"
    and self: "\<And>r. upd r r = r"
  shows "upd r (fold upd rows r) = r"
proof (cases "rows = []")
  case True
  then show ?thesis by (simp add: self)
next
  case False
  then show ?thesis
    by (simp add: fold_upd_last [of upd, OF override] override self)
qed

lemma fold_upsert_row_idem:
  assumes keyupd: "\<And>r x. key x = key r \<Longrightarrow> key (upd r x) = key x"
    and override: "\<And>r r' x. upd r (upd r' x) = upd r x"
    and self: "\<And>r. upd r r = r"
  shows "fold (upsert_row key upd) rows (fold (upsert_row key upd) rows tbl)
         = fold (upsert_row key upd) rows tbl"
proof (induction "length rows + length tbl" arbitrary: rows tbl rule: less_induct)
  case less
  let ?U = "upsert_row key upd"
  show ?case
  proof (cases tbl)
    case (Cons x xs)
    let ?R1 = "filter (\<lambda>r. key r = key x) rows"
    let ?R2 = "filter (\<lambda>r. key r \<noteq> key x) rows"
    have first: "fold ?U rows tbl = fold upd ?R1 x # fold ?U ?R2 xs"
      using Cons fold_upsert_row_Cons [of key upd rows x xs, OF keyupd] by simp
    have k: "key (fold upd ?R1 x) = key x"
      by (rule fold_upd_key [of key upd, OF keyupd]) simp_all
    have "length ?R2 + length xs < length rows + length tbl"
      using Cons by (simp add: less_Suc_eq_le)
    then have ih: "fold ?U ?R2 (fold ?U ?R2 xs) = fold ?U ?R2 xs"
      by (rule less)
    have "fold ?U rows (fold upd ?R1 x # fold ?U ?R2 xs)
          = fold upd ?R1 (fold upd ?R1 x) # fold ?U ?R2 (fold ?U ?R2 xs)"
      using fold_upsert_row_Cons [of key upd rows "fold upd ?R1 x" "fold ?U ?R2 xs", OF keyupd]
      by (simp add: k)
    then show ?thesis
      by (simp add: first ih fold_upd_idem [of upd, OF override])
  next
    case Nil
    show ?thesis
    proof (cases rows)
      case Nil
      then show ?thesis by simp
    next
      case (Cons r rs)
      let ?R1 = "filter (\<lambda>q. key q = key r) rs"
      let ?R2 = "filter (\<lambda>q. key q \<noteq> key r) rs"
      have first: "fold ?U rows tbl = fold upd ?R1 r # fold ?U ?R2 []"
        using Cons \<open>tbl = []\<close> fold_upsert_row_Cons [of key upd rs r "[]", OF keyupd] by simp
      have k: "key (fold upd ?R1 r) = key r"
        by (rule fold_upd_key [of key upd, OF keyupd]) simp_all
      have "length ?R2 + length ([] :: 'a list) < length rows + length tbl"
        using Cons by (simp add: less_Suc_eq_le trans_le_add1)
      then have ih: "fold ?U ?R2 (fold ?U ?R2 []) = fold ?U ?R2 []"
        by (rule less)
      have "fold ?U rows (fold upd ?R1 r # fold ?U ?R2 [])
            = fold upd (r # ?R1) (fold upd ?R1 r) # fold ?U ?R2 (fold ?U ?R2 [])"
        using Cons
          fold_upsert_row_Cons [of key upd rows "fold upd ?R1 r" "fold ?U ?R2 []", OF keyupd]
        by (simp add: k)
      moreover have "fold upd (r # ?R1) (fold upd ?R1 r) = fold upd ?R1 r"
        by (simp add: fold_upd_absorb [of upd, OF override self])
      ultimately show ?thesis
        by (simp add: first ih)
    qed
  qed
qed

lemma spot_UPSERT_idem: "spot_UPSERT rows (spot_UPSERT rows tbl) = spot_UPSERT rows tbl"
  unfolding spot_UPSERT_def
  by (rule fold_upsert_row_idem) (simp_all add: spot_key_def spot_update_def)

lemma latest_UPSERT_idem: "latest_UPSERT rows (latest_UPSERT rows tbl) = latest_UPSERT rows tbl"
  unfolding latest_UPSERT_def
  by (rule fold_upsert_row_idem) simp_all

text \<open>
  Claim C4.  Persisting the same records and checkpoints a second time leaves the storage
  as the first time left it: \<^verbatim>\<open>persist_records\<close> is idempotent on the whole state, and so
  is each of its two statements on its table, the bar upsert keyed on
  \<^verbatim>\<open>(symbol, open_time)\<close> (which keeps the id of a stored row) and the checkpoint upsert
  keyed on \<^verbatim>\<open>symbol\<close>.
\<close>

theorem persist_records_idempotent:
  "persist_records records latest_records (persist_records records latest_records t)
     = persist_records records latest_records t
   \<and> spot_UPSERT records (spot_UPSERT records tbl) = spot_UPSERT records tbl
   \<and> latest_UPSERT latest_records (latest_UPSERT latest_records ltbl)
       = latest_UPSERT latest_records ltbl"
  by (simp add: persist_records_def commit_transaction_def Let_def spot_UPSERT_idem
      latest_UPSERT_idem)

section \<open>The loop of \<^verbatim>\<open>load_from_keys\<close>: properties\<close>

lemma batch_persistence_fields [simp]:
  "requests (batch_persistence L st) = requests st"
  "processed_symbols (batch_persistence L st) = processed_symbols st"
  by (simp_all add: batch_persistence_def Let_def)

lemma batch_persistence_flushed:
  "flush_due L st \<Longrightarrow>
   batch_persistence L st =
     st\<lparr> target := persist_records (record_objs st) (List.map_filter (\<lambda>r. r) (new_latest st))
                      (target st),
         flushes := flushes st @ [(record_objs st, List.map_filter (\<lambda>r. r) (new_latest st))],
         persisted_records := persisted_records st + length (record_objs st),
         record_objs := [],
         new_latest := [] \<rparr>"
  by (simp add: batch_persistence_def Let_def)

lemma batch_persistence_kept: "\<not> flush_due L st \<Longrightarrow> batch_persistence L st = st"
  by (simp add: batch_persistence_def)

text \<open>The bars a request returns, \<^verbatim>\<open>None\<close> read as no bars.\<close>

lemma process_key_no_bars:
  "get_bars w (processed_symbols st + 1) s start_time = None
     \<or> get_bars w (processed_symbols st + 1) s start_time = Some [] \<Longrightarrow>
   process_key w L (s, start_time) st =
     (None, batch_persistence L
        (st\<lparr>processed_symbols := processed_symbols st + 1,
            requests := requests st @ [(s, start_time)]\<rparr>))"
  by (auto simp: process_key_def Let_def)

lemma process_key_bars:
  assumes "get_bars w (processed_symbols st + 1) s start_time = Some bars" and "bars \<noteq> []"
  shows "process_key w L (s, start_time) st =
     (case latest_closed (to_ms w) L (utcnow w (processed_symbols st + 1)) s
             (symbol_records w bars (fst (get_next_ids (length bars) (target st)))) of
        Inl e \<Rightarrow>
          (Some e, st\<lparr>processed_symbols := processed_symbols st + 1,
                      requests := requests st @ [(s, start_time)],
                      target := snd (get_next_ids (length bars) (target st))\<rparr>)
      | Inr l \<Rightarrow>
          (None, batch_persistence L
             (st\<lparr>processed_symbols := processed_symbols st + 1,
                 requests := requests st @ [(s, start_time)],
                 target := snd (get_next_ids (length bars) (target st)),
                 new_latest := new_latest st @ [l],
                 record_objs := record_objs st
                   @ symbol_records w bars (fst (get_next_ids (length bars) (target st)))\<rparr>)))"
  using assms by (simp add: process_key_def Let_def split: prod.splits sum.splits)


lemma process_key_not_fetched:
  "fetched w (processed_symbols st + 1) key = [] \<Longrightarrow>
   process_key w L key st =
     (None, batch_persistence L
        (st\<lparr>processed_symbols := processed_symbols st + 1,
            requests := requests st @ [key]\<rparr>))"
  using process_key_no_bars [of w st "fst key" "snd key" L]
  by (cases key) (auto simp: fetched_def split: option.splits)

lemma process_key_fetched:
  assumes "fetched w (processed_symbols st + 1) key = bars" and "bars \<noteq> []"
  shows "process_key w L key st =
     (case latest_closed (to_ms w) L (utcnow w (processed_symbols st + 1)) (fst key)
             (symbol_records w bars (fst (get_next_ids (length bars) (target st)))) of
        Inl e \<Rightarrow>
          (Some e, st\<lparr>processed_symbols := processed_symbols st + 1,
                      requests := requests st @ [key],
                      target := snd (get_next_ids (length bars) (target st))\<rparr>)
      | Inr l \<Rightarrow>
          (None, batch_persistence L
             (st\<lparr>processed_symbols := processed_symbols st + 1,
                 requests := requests st @ [key],
                 target := snd (get_next_ids (length bars) (target st)),
                 new_latest := new_latest st @ [l],
                 record_objs := record_objs st
                   @ symbol_records w bars (fst (get_next_ids (length bars) (target st)))\<rparr>)))"
proof (cases key)
  case (Pair s start_time)
  have "get_bars w (processed_symbols st + 1) s start_time = Some bars"
    using assms Pair by (auto simp: fetched_def split: option.splits)
  then show ?thesis
    unfolding Pair fst_conv snd_conv
    by (rule process_key_bars [OF _ assms(2)])
qed

lemma symbol_records_fetched_length [simp]:
  "length (symbol_records w bars (fst (get_next_ids (length bars) t))) = length bars"
  by (simp add: symbol_records_def get_next_ids_def)

lemma symbol_records_Nil_iff [simp]:
  "symbol_records w bars (fst (get_next_ids (length bars) t)) = [] \<longleftrightarrow> bars = []"
  using symbol_records_fetched_length [of w bars t] by (metis length_0_conv)

lemma process_key_cases [case_names skip fail add]:
  obtains
    "fetched w (processed_symbols st + 1) key = []"
    "process_key w L key st =
       (None, batch_persistence L
          (st\<lparr>processed_symbols := processed_symbols st + 1,
              requests := requests st @ [key]\<rparr>))"
  | e t1 where
    "process_key w L key st =
       (Some e, st\<lparr>processed_symbols := processed_symbols st + 1,
                   requests := requests st @ [key], target := t1\<rparr>)"
  | l rs t1 where
    "rs \<noteq> []"
    "length rs = length (fetched w (processed_symbols st + 1) key)"
    "process_key w L key st =
       (None, batch_persistence L
          (st\<lparr>processed_symbols := processed_symbols st + 1,
              requests := requests st @ [key], target := t1,
              new_latest := new_latest st @ [l],
              record_objs := record_objs st @ rs\<rparr>))"
proof (cases "fetched w (processed_symbols st + 1) key = []")
  case True
  then show ?thesis
    using that(1) process_key_not_fetched [of w st key L] by blast
next
  case False
  let ?bars = "fetched w (processed_symbols st + 1) key"
  let ?rs = "symbol_records w ?bars (fst (get_next_ids (length ?bars) (target st)))"
  show ?thesis
  proof (cases "latest_closed (to_ms w) L (utcnow w (processed_symbols st + 1)) (fst key) ?rs")
    case (Inl e)
    then show ?thesis
      using that(2) process_key_fetched [OF refl False, of L] by simp
  next
    case (Inr l)
    have "?rs \<noteq> []" "length ?rs = length ?bars"
      using False by simp_all
    then show ?thesis
      using that(3) [of ?rs] Inr process_key_fetched [OF refl False, of L] by simp
  qed
qed

lemma process_key_requests:
  "requests (snd (process_key w L key st)) = requests st @ [key]"
  by (cases rule: process_key_cases [of w st key L]) simp_all

lemma process_key_processed:
  "processed_symbols (snd (process_key w L key st)) = processed_symbols st + 1"
  by (cases rule: process_key_cases [of w st key L]) simp_all

lemma batch_persistence_count:
  "persisted_records (batch_persistence L st) + length (record_objs (batch_persistence L st))
     = persisted_records st + length (record_objs st)"
  by (simp add: batch_persistence_def Let_def)

lemma batch_persistence_flushed_count:
  "persisted_records st = length (concat (map fst (flushes st))) \<Longrightarrow>
   persisted_records (batch_persistence L st)
     = length (concat (map fst (flushes (batch_persistence L st))))"
  by (simp add: batch_persistence_def Let_def)

lemma batch_persistence_pending:
  "record_objs st = [] \<longrightarrow> new_latest st = [] \<Longrightarrow>
   record_objs (batch_persistence L st) = [] \<longrightarrow> new_latest (batch_persistence L st) = []"
  by (simp add: batch_persistence_def Let_def)

lemma batch_persistence_last:
  "processed_symbols st = n_active_symbols L \<Longrightarrow>
   record_objs st = [] \<longrightarrow> new_latest st = [] \<Longrightarrow>
   record_objs (batch_persistence L st) = [] \<and> new_latest (batch_persistence L st) = []"
  by (simp add: batch_persistence_def flush_due_def Let_def)

lemma process_key_count:
  assumes "fst (process_key w L key st) = None"
  shows "persisted_records (snd (process_key w L key st))
     + length (record_objs (snd (process_key w L key st)))
   = persisted_records st + length (record_objs st)
     + length (fetched w (processed_symbols st + 1) key)"
  using assms
  by (cases rule: process_key_cases [of w st key L]) (simp_all add: batch_persistence_count)

lemma process_key_flushed_count:
  assumes "persisted_records st = length (concat (map fst (flushes st)))"
  shows "persisted_records (snd (process_key w L key st))
     = length (concat (map fst (flushes (snd (process_key w L key st)))))"
  using assms
  by (cases rule: process_key_cases [of w st key L])
     (simp_all add: batch_persistence_flushed_count)

lemma process_key_pending:
  assumes "fst (process_key w L key st) = None"
    and "record_objs st = [] \<longrightarrow> new_latest st = []"
  shows "record_objs (snd (process_key w L key st)) = []
      \<longrightarrow> new_latest (snd (process_key w L key st)) = []"
  using assms
  by (cases rule: process_key_cases [of w st key L])
     (simp_all add: batch_persistence_pending)

lemma process_key_last:
  assumes "fst (process_key w L key st) = None"
    and "processed_symbols st + 1 = n_active_symbols L"
    and "record_objs st = [] \<longrightarrow> new_latest st = []"
  shows "record_objs (snd (process_key w L key st)) = []
   \<and> new_latest (snd (process_key w L key st)) = []"
  using assms
  by (cases rule: process_key_cases [of w st key L])
     (simp_all add: batch_persistence_last)


lemma load_loop_Cons_ok:
  "fst (process_key w L key st) = None \<Longrightarrow>
   load_loop w L (key # keys) st = load_loop w L keys (snd (process_key w L key st))"
  by (cases "process_key w L key st") auto

lemma load_loop_Cons_fail:
  "fst (process_key w L key st) = Some e \<Longrightarrow>
   load_loop w L (key # keys) st = process_key w L key st"
  by (cases "process_key w L key st") auto

lemma load_loop_Cons_ok_iff:
  "fst (load_loop w L (key # keys) st) = None \<longleftrightarrow>
   fst (process_key w L key st) = None
   \<and> fst (load_loop w L keys (snd (process_key w L key st))) = None"
  by (cases "process_key w L key st") (auto split: option.splits)

declare load_loop.simps(2) [simp del]

lemma load_loop_requests:
  "fst (load_loop w L keys st) = None \<Longrightarrow>
   requests (snd (load_loop w L keys st)) = requests st @ keys"
proof (induction keys arbitrary: st)
  case Nil
  then show ?case by simp
next
  case (Cons key keys)
  then have ok: "fst (process_key w L key st) = None"
    and rest: "fst (load_loop w L keys (snd (process_key w L key st))) = None"
    by (simp_all add: load_loop_Cons_ok_iff)
  show ?case
    using Cons.IH [OF rest] by (simp add: load_loop_Cons_ok [OF ok] process_key_requests)
qed

lemma load_loop_flushed_count:
  "persisted_records st = length (concat (map fst (flushes st))) \<Longrightarrow>
   persisted_records (snd (load_loop w L keys st))
     = length (concat (map fst (flushes (snd (load_loop w L keys st)))))"
proof (induction keys arbitrary: st)
  case Nil
  then show ?case by simp
next
  case (Cons key keys)
  show ?case
  proof (cases "process_key w L key st")
    case (Pair e st')
    have inv: "persisted_records st' = length (concat (map fst (flushes st')))"
      using process_key_flushed_count [OF Cons.prems, of w L key] Pair by simp
    show ?thesis
      using Pair inv Cons.IH [OF inv] by (cases e) (simp_all add: load_loop.simps(2))
  qed
qed

lemma load_loop_count:
  "fst (load_loop w L keys st) = None \<Longrightarrow>
   persisted_records (snd (load_loop w L keys st))
     + length (record_objs (snd (load_loop w L keys st)))
   = persisted_records st + length (record_objs st)
     + (\<Sum>i<length keys. length (fetched w (processed_symbols st + 1 + i) (keys ! i)))"
proof (induction keys arbitrary: st)
  case Nil
  then show ?case by simp
next
  case (Cons key keys)
  then have ok: "fst (process_key w L key st) = None"
    and rest: "fst (load_loop w L keys (snd (process_key w L key st))) = None"
    by (simp_all add: load_loop_Cons_ok_iff)
  let ?st1 = "snd (process_key w L key st)"
  let ?n = "\<lambda>k key. length (fetched w k key)"
  have shift: "(\<Sum>i<length (key # keys). ?n (processed_symbols st + 1 + i) ((key # keys) ! i))
      = ?n (processed_symbols st + 1) key
        + (\<Sum>i<length keys. ?n (processed_symbols st + 1 + 1 + i) (keys ! i))"
    by (simp add: sum.lessThan_Suc_shift del: sum.lessThan_Suc)
  have "persisted_records (snd (load_loop w L (key # keys) st))
          + length (record_objs (snd (load_loop w L (key # keys) st)))
        = persisted_records (snd (load_loop w L keys ?st1))
          + length (record_objs (snd (load_loop w L keys ?st1)))"
    by (simp add: load_loop_Cons_ok [OF ok])
  also have "\<dots> = persisted_records ?st1 + length (record_objs ?st1)
          + (\<Sum>i<length keys. ?n (processed_symbols ?st1 + 1 + i) (keys ! i))"
    by (rule Cons.IH [OF rest])
  also have "\<dots> = persisted_records st + length (record_objs st)
          + ?n (processed_symbols st + 1) key
          + (\<Sum>i<length keys. ?n (processed_symbols st + 1 + 1 + i) (keys ! i))"
    using process_key_count [OF ok] by (simp add: process_key_processed)
  also have "\<dots> = persisted_records st + length (record_objs st)
          + (\<Sum>i<length (key # keys). ?n (processed_symbols st + 1 + i) ((key # keys) ! i))"
    by (subst shift) simp
  finally show ?case .
qed

lemma load_loop_nothing_pending:
  "fst (load_loop w L keys st) = None \<Longrightarrow> keys \<noteq> [] \<Longrightarrow>
   processed_symbols st + length keys = n_active_symbols L \<Longrightarrow>
   record_objs st = [] \<longrightarrow> new_latest st = [] \<Longrightarrow>
   record_objs (snd (load_loop w L keys st)) = []
   \<and> new_latest (snd (load_loop w L keys st)) = []"
proof (induction keys arbitrary: st)
  case Nil
  then show ?case by simp
next
  case (Cons key keys)
  then have ok: "fst (process_key w L key st) = None"
    and rest: "fst (load_loop w L keys (snd (process_key w L key st))) = None"
    by (simp_all add: load_loop_Cons_ok_iff)
  show ?case
  proof (cases "keys = []")
    case True
    then show ?thesis
      using process_key_last [OF ok] Cons.prems(3,4) by (simp add: load_loop_Cons_ok [OF ok])
  next
    case False
    have "processed_symbols (snd (process_key w L key st)) + length keys = n_active_symbols L"
      using Cons.prems(3) by (simp add: process_key_processed)
    then show ?thesis
      using Cons.IH [OF rest False _ process_key_pending [OF ok Cons.prems(4)]]
      by (simp add: load_loop_Cons_ok [OF ok])
  qed
qed

section \<open>\<^verbatim>\<open>run_once\<close>: properties\<close>

lemma get_keys_count:
  "get_keys L t symbol_lst = Inr (keys, L') \<Longrightarrow>
   L' = L\<lparr>n_active_symbols := length keys\<rparr>"
  by (auto simp: get_keys_def Let_def split: sum.splits if_splits)

lemma run_once_ok:
  assumes "run_once w L symbol_lst t = (None, L', st)"
  obtains t1 keys L2 where
    "check_trading_status w (L\<lparr>mode := ''SLOW''\<rparr>) t = Inr t1"
    "get_keys (L\<lparr>mode := ''SLOW''\<rparr>) t1 symbol_lst = Inr (keys, L2)"
    "L2 = L\<lparr>mode := ''SLOW'', n_active_symbols := length keys\<rparr>"
    "load_from_keys w L2 keys t1 = (None, st)"
    "L' = (if persisted_records st > n_active_symbols L2 then L2\<lparr>mode := ''FAST''\<rparr> else L2)"
proof -
  obtain t1 where c: "check_trading_status w (L\<lparr>mode := ''SLOW''\<rparr>) t = Inr t1"
    using assms by (auto simp: run_once_def Let_def split: sum.splits)
  obtain keys L2 where k: "get_keys (L\<lparr>mode := ''SLOW''\<rparr>) t1 symbol_lst = Inr (keys, L2)"
    using assms c by (auto simp: run_once_def Let_def split: sum.splits)
  have l: "load_from_keys w L2 keys t1 = (None, st)"
    and m: "L' = (if persisted_records st > n_active_symbols L2 then L2\<lparr>mode := ''FAST''\<rparr> else L2)"
    using assms c k by (auto simp: run_once_def Let_def split: prod.splits option.splits)
  show ?thesis
    using that [OF c k _ l m] get_keys_count [OF k] by simp
qed

lemma fast_choices: "1 \<le> py_choice ([1, 5] @ map int [1..<5]) k
    \<and> py_choice ([1, 5] @ map int [1..<5]) k \<le> 5"
proof -
  have all: "\<forall>x \<in> set ([1, 5] @ map int [1..<5]). 1 \<le> x \<and> x \<le> 5"
    by auto
  have "k mod length ([1, 5] @ map int [1..<5]) < length ([1, 5] @ map int [1..<5])"
    by simp
  then have "py_choice ([1, 5] @ map int [1..<5]) k \<in> set ([1, 5] @ map int [1..<5])"
    unfolding py_choice_def by (rule nth_mem)
  then show ?thesis
    using all by blast
qed

lemma fast_choices_onto:
  assumes "1 \<le> v" and "v \<le> 5"
  shows "\<exists>j. py_choice ([1, 5] @ map int [1..<5]) j = v"
proof -
  have l: "[1, 5] @ map int [1..<5] = [1, 5, 1, 2, 3, 4]"
    by (simp add: upt_rec)
  consider "v = 1" | "v = 2" | "v = 3" | "v = 4" | "v = 5"
    using assms by linarith
  then show ?thesis
  proof cases
    case 1
    then have "py_choice ([1, 5] @ map int [1..<5]) 0 = v"
      unfolding l by (simp add: py_choice_def)
    then show ?thesis ..
  next
    case 2
    then have "py_choice ([1, 5] @ map int [1..<5]) 3 = v"
      unfolding l by (simp add: py_choice_def)
    then show ?thesis ..
  next
    case 3
    then have "py_choice ([1, 5] @ map int [1..<5]) 4 = v"
      unfolding l by (simp add: py_choice_def)
    then show ?thesis ..
  next
    case 4
    then have "py_choice ([1, 5] @ map int [1..<5]) 5 = v"
      unfolding l by (simp add: py_choice_def)
    then show ?thesis ..
  next
    case 5
    then have "py_choice ([1, 5] @ map int [1..<5]) 1 = v"
      unfolding l by (simp add: py_choice_def)
    then show ?thesis ..
  qed
qed

lemma service_loop_slept:
  "service_loop ws symbol_list L t slept =
     (fst (service_loop ws symbol_list L t []),
      fst (snd (service_loop ws symbol_list L t [])),
      slept @ snd (snd (service_loop ws symbol_list L t [])))"
proof (induction ws arbitrary: L t slept)
  case Nil
  then show ?case by simp
next
  case (Cons w ws)
  show ?case
  proof (cases "run_once w L symbol_list t")
    case (fields e L' st)
    show ?thesis
    proof (cases e)
      case (Some err)
      then show ?thesis using fields by simp
    next
      case None
      note run = fields [unfolded None]
      show ?thesis
      proof (cases "waiting_time (draw w) L'")
        case (Inl err)
        then show ?thesis using run by simp
      next
        case (Inr o_wt)
        show ?thesis
        proof (cases o_wt)
          case None
          then show ?thesis using run Inr by simp
        next
          case (Some wt)
          show ?thesis
          proof (cases "0 < wt")
            case True
            have "service_loop ws symbol_list L' (target st) (slept @ [wt]) =
                (fst (service_loop ws symbol_list L' (target st) []),
                 fst (snd (service_loop ws symbol_list L' (target st) [])),
                 (slept @ [wt]) @ snd (snd (service_loop ws symbol_list L' (target st) [])))"
              by (rule Cons.IH)
            moreover have "service_loop ws symbol_list L' (target st) [wt] =
                (fst (service_loop ws symbol_list L' (target st) []),
                 fst (snd (service_loop ws symbol_list L' (target st) [])),
                 [wt] @ snd (snd (service_loop ws symbol_list L' (target st) [])))"
              by (rule Cons.IH)
            ultimately show ?thesis
              using run Inr Some True by simp
          next
            case False
            then show ?thesis
              using run Inr Some by simp
          qed
        qed
      qed
    qed
  qed
qed

lemma service_loop_fast_step:
  assumes run: "run_once w L symbol_lst t = (None, L', st)"
    and fast: "mode L' = ''FAST''"
  shows "waiting_time (draw w) L' = Inr (Some (py_choice ([1, 5] @ map int [1..<5]) (draw w)))"
    and "service_loop (w # ws) symbol_lst L t slept
       = service_loop ws symbol_lst L' (target st)
           (slept @ [py_choice ([1, 5] @ map int [1..<5]) (draw w)])"
proof -
  let ?wt = "py_choice ([1, 5] @ map int [1..<5]) (draw w)"
  show wt: "waiting_time (draw w) L' = Inr (Some ?wt)"
    using fast by (simp add: waiting_time_def)
  have "1 \<le> ?wt"
    using fast_choices [of "draw w"] by simp
  then have "?wt \<noteq> 0" "\<not> ?wt < 0"
    by simp_all
  then show "service_loop (w # ws) symbol_lst L t slept
       = service_loop ws symbol_lst L' (target st) (slept @ [?wt])"
    using run wt by (simp del: upt_Suc)
qed

text \<open>
  Claim C10.  When a cycle ends without an exception, the mode is \<^verbatim>\<open>FAST\<close> if and only if
  the number of records persisted in the cycle, which is the total size of the batches
  handed to \<^verbatim>\<open>persist_records\<close>, exceeds the active-symbol count, which is the number of
  requests of the cycle; otherwise it is \<^verbatim>\<open>SLOW\<close>.  In the mode \<^verbatim>\<open>FAST\<close> the waiting time is
  the element \<^verbatim>\<open>secrets.choice\<close> draws from \<^verbatim>\<open>[1, 5, 1, 2, 3, 4]\<close>: it lies between 1 and 5
  seconds whatever is drawn, and each of the five values is drawn for some outcome.  The
  loop of \<^verbatim>\<open>run_as_service\<close> sleeps the time drawn in this cycle and then runs the next
  cycle from the loader and the storage this cycle left: the list of its sleeps continues
  with that time, followed by the sleeps of the remaining cycles.
\<close>

theorem run_once_pacing_mode:
  "run_once w L symbol_lst t = (None, L', st) \<Longrightarrow>
     (mode L' = ''FAST'' \<longleftrightarrow> n_active_symbols L' < persisted_records st)
   \<and> (mode L' = ''SLOW'' \<longleftrightarrow> \<not> n_active_symbols L' < persisted_records st)
   \<and> persisted_records st = length (concat (map fst (flushes st)))
   \<and> n_active_symbols L' = length (requests st)
   \<and> (mode L' = ''FAST'' \<longrightarrow>
        (\<exists>wt. waiting_time k L' = Inr (Some wt) \<and> 1 \<le> wt \<and> wt \<le> 5)
        \<and> (\<forall>v. 1 \<le> v \<and> v \<le> 5 \<longrightarrow> (\<exists>j. waiting_time j L' = Inr (Some v)))
        \<and> (\<exists>wt. waiting_time (draw w) L' = Inr (Some wt) \<and> 1 \<le> wt \<and> wt \<le> 5
              \<and> service_loop (w # ws) symbol_lst L t slept
                  = service_loop ws symbol_lst L' (target st) (slept @ [wt])
              \<and> snd (snd (service_loop (w # ws) symbol_lst L t slept))
                  = slept @ wt # snd (snd (service_loop ws symbol_lst L' (target st) []))
              \<and> (symbol_lst \<noteq> [] \<longrightarrow>
                   snd (snd (run_as_service (w # ws) (Some symbol_lst) L t))
                     = wt # snd (snd (service_loop ws symbol_lst L' (target st) [])))))"
proof -
  assume run: "run_once w L symbol_lst t = (None, L', st)"
  then obtain t1 keys L2 where
    L2: "L2 = L\<lparr>mode := ''SLOW'', n_active_symbols := length keys\<rparr>"
    and load: "load_from_keys w L2 keys t1 = (None, st)"
    and L': "L' = (if persisted_records st > n_active_symbols L2 then L2\<lparr>mode := ''FAST''\<rparr> else L2)"
    by (rule run_once_ok)
  have loop: "load_loop w L2 keys (init_state t1) = (None, st)"
    using load by (simp add: load_from_keys_def)
  have reqs: "requests st = keys"
    using load_loop_requests [of w L2 keys "init_state t1"] loop by (simp add: init_state_def)
  have cnt: "persisted_records st = length (concat (map fst (flushes st)))"
    using load_loop_flushed_count [of "init_state t1" w L2 keys] loop by (simp add: init_state_def)
  have fast: "mode L' = ''FAST'' \<longleftrightarrow> n_active_symbols L' < persisted_records st"
    using L' L2 by simp
  have slow: "mode L' = ''SLOW'' \<longleftrightarrow> \<not> n_active_symbols L' < persisted_records st"
    using L' L2 by simp
  have n: "n_active_symbols L' = length (requests st)"
    using L' L2 reqs by simp
  have wait: "\<exists>wt. waiting_time k L' = Inr (Some wt) \<and> 1 \<le> wt \<and> wt \<le> 5" if "mode L' = ''FAST''"
    using that fast_choices [of k] by (simp add: waiting_time_def)
  have onto: "\<forall>v. 1 \<le> v \<and> v \<le> 5 \<longrightarrow> (\<exists>j. waiting_time j L' = Inr (Some v))"
    if "mode L' = ''FAST''"
  proof (intro allI impI)
    fix v :: int
    assume "1 \<le> v \<and> v \<le> 5"
    then obtain j where "py_choice ([1, 5] @ map int [1..<5]) j = v"
      using fast_choices_onto [of v] by blast
    then have "waiting_time j L' = Inr (Some v)"
      using that by (simp add: waiting_time_def)
    then show "\<exists>j. waiting_time j L' = Inr (Some v)" ..
  qed
  have sleep: "\<exists>wt. waiting_time (draw w) L' = Inr (Some wt) \<and> 1 \<le> wt \<and> wt \<le> 5
      \<and> service_loop (w # ws) symbol_lst L t slept
          = service_loop ws symbol_lst L' (target st) (slept @ [wt])
      \<and> snd (snd (service_loop (w # ws) symbol_lst L t slept))
          = slept @ wt # snd (snd (service_loop ws symbol_lst L' (target st) []))
      \<and> (symbol_lst \<noteq> [] \<longrightarrow>
           snd (snd (run_as_service (w # ws) (Some symbol_lst) L t))
             = wt # snd (snd (service_loop ws symbol_lst L' (target st) [])))"
    if f: "mode L' = ''FAST''"
  proof -
    define wt where "wt = py_choice ([1, 5] @ map int [1..<5]) (draw w)"
    define rest where "rest = snd (snd (service_loop ws symbol_lst L' (target st) []))"
    have w1: "waiting_time (draw w) L' = Inr (Some wt)"
      unfolding wt_def by (rule service_loop_fast_step(1) [OF run f])
    have step: "service_loop (w # ws) symbol_lst L t xs
        = service_loop ws symbol_lst L' (target st) (xs @ [wt])" for xs
      unfolding wt_def by (rule service_loop_fast_step(2) [OF run f])
    have range: "1 \<le> wt \<and> wt \<le> 5"
      unfolding wt_def by (rule fast_choices)
    have "snd (snd (service_loop ws symbol_lst L' (target st) (xs @ [wt]))) = (xs @ [wt]) @ rest"
      for xs
      unfolding rest_def by (subst service_loop_slept) simp
    then have trace: "snd (snd (service_loop (w # ws) symbol_lst L t xs)) = xs @ wt # rest" for xs
      by (simp only: step append_assoc append_Cons append_Nil)
    have "snd (snd (run_as_service (w # ws) (Some symbol_lst) L t)) = wt # rest"
      if "symbol_lst \<noteq> []"
      using that trace [of "[]"] by (simp only: run_as_service_def option.case if_False append_Nil)
    then show ?thesis
      using w1 range step [of slept] trace [of slept] unfolding rest_def by blast
  qed
  show ?thesis
    using fast slow cnt n wait onto sleep by blast
qed

text \<open>
  Claim C10 on the scenario of a new symbol with three bars: three records persisted for one
  active symbol give the mode \<^verbatim>\<open>FAST\<close>, and a service of this one cycle sleeps the first
  element of the list, one second.
\<close>

theorem run_once_pacing_mode_witness:
  "run_once (world_of three_bars noon None) loader_1h [''XYZ''] empty_target
     = (None,
        fst (snd (run_once (world_of three_bars noon None) loader_1h [''XYZ''] empty_target)),
        snd (snd (run_once (world_of three_bars noon None) loader_1h [''XYZ''] empty_target)))
   \<and> mode (fst (snd (run_once (world_of three_bars noon None) loader_1h [''XYZ''] empty_target)))
       = ''FAST''
   \<and> n_active_symbols
       (fst (snd (run_once (world_of three_bars noon None) loader_1h [''XYZ''] empty_target))) = 1
   \<and> persisted_records
       (snd (snd (run_once (world_of three_bars noon None) loader_1h [''XYZ''] empty_target))) = 3
   \<and> waiting_time (draw (world_of three_bars noon None))
         (fst (snd (run_once (world_of three_bars noon None) loader_1h [''XYZ''] empty_target)))
       = Inr (Some 1)
   \<and> [''XYZ''] \<noteq> []
   \<and> snd (snd (run_as_service [world_of three_bars noon None] (Some [''XYZ'']) loader_1h
         empty_target)) = [1]
   \<and> (1 :: int) \<le> 3 \<and> (3 :: int) \<le> 5
   \<and> (\<exists>j. waiting_time j
         (fst (snd (run_once (world_of three_bars noon None) loader_1h [''XYZ''] empty_target)))
         = Inr (Some 3))"
proof -
  let ?W = "world_of three_bars noon None"
  let ?R = "run_once ?W loader_1h [''XYZ''] empty_target"
  have "fst ?R = None"
    by code_simp
  then have run: "?R = (None, fst (snd ?R), snd (snd ?R))"
    by (metis prod.collapse)
  have n: "n_active_symbols (fst (snd ?R)) = 1"
    by code_simp
  have p: "persisted_records (snd (snd ?R)) = 3"
    by code_simp
  have wt: "waiting_time (draw ?W) (fst (snd ?R)) = Inr (Some 1)"
    by code_simp
  note inst = run_once_pacing_mode [OF run, where k = 3 and ws = "[]" and slept = "[]"]
  have "mode (fst (snd ?R)) = ''FAST''
      \<longleftrightarrow> n_active_symbols (fst (snd ?R)) < persisted_records (snd (snd ?R))"
    using inst by (rule conjunct1)
  then have m: "mode (fst (snd ?R)) = ''FAST''"
    unfolding n p by simp
  note fast = inst [THEN conjunct2, THEN conjunct2, THEN conjunct2, THEN conjunct2, THEN mp, OF m]
  have "\<forall>v. 1 \<le> v \<and> v \<le> 5 \<longrightarrow> (\<exists>j. waiting_time j (fst (snd ?R)) = Inr (Some v))"
    using fast by (rule_tac conjunct1 [OF conjunct2])
  then have "1 \<le> (3 :: int) \<and> (3 :: int) \<le> 5
      \<longrightarrow> (\<exists>j. waiting_time j (fst (snd ?R)) = Inr (Some 3))"
    by (rule spec)
  moreover have "1 \<le> (3 :: int) \<and> (3 :: int) \<le> 5"
    by simp
  ultimately have three: "\<exists>j. waiting_time j (fst (snd ?R)) = Inr (Some 3)"
    by (rule mp)
  have service: "snd (snd (run_as_service [?W] (Some [''XYZ'']) loader_1h empty_target)) = [1]"
    using fast [THEN conjunct2, THEN conjunct2] wt
    by (elim exE conjE) (simp del: service_loop.simps(2))
  have small: "[''XYZ''] \<noteq> []" "(1 :: int) \<le> 3" "(3 :: int) \<le> 5"
    by simp_all
  show ?thesis
    by (intro conjI) (fact run m n p wt small service three)+
qed

section \<open>Batch persistence: properties\<close>

lemma process_key_ok_many:
  assumes "1 < length (fetched w (processed_symbols st + 1) key)"
  shows "fst (process_key w L key st) = None"
proof -
  let ?bars = "fetched w (processed_symbols st + 1) key"
  have ne: "?bars \<noteq> []"
    using assms by auto
  have "1 < length (symbol_records w ?bars (fst (get_next_ids (length ?bars) (target st))))"
    using assms by simp
  then show ?thesis
    by (simp add: process_key_fetched [OF refl ne] latest_closed_def Let_def)
qed

lemma process_key_ok_single:
  assumes "fetched w (processed_symbols st + 1) key = [b]"
    and "check_active (to_ms w) (interval L) (utcnow w (processed_symbols st + 1))
           (b_timestamp b) = Inr a"
  shows "fst (process_key w L key st) = None"
proof -
  have ne: "[b] \<noteq> []"
    by simp
  show ?thesis
    using assms(2)
    by (simp add: process_key_fetched [OF assms(1) ne] latest_closed_def symbol_records_def
        get_next_ids_def build_record_def)
qed

lemma process_key_flush:
  assumes ok: "fst (process_key w L key st) = None"
  shows "if (record_objs st \<noteq> [] \<or> fetched w (processed_symbols st + 1) key \<noteq> [])
            \<and> ((processed_symbols st + 1) mod BATCH_SIZE = 0
                 \<or> processed_symbols st + 1 = n_active_symbols L)
         then length (flushes (snd (process_key w L key st))) = length (flushes st) + 1
              \<and> record_objs (snd (process_key w L key st)) = []
              \<and> new_latest (snd (process_key w L key st)) = []
              \<and> length (fst (last (flushes (snd (process_key w L key st)))))
                  = length (record_objs st) + length (fetched w (processed_symbols st + 1) key)
         else flushes (snd (process_key w L key st)) = flushes st"
proof (cases rule: process_key_cases [of w st key L])
  case skip
  then show ?thesis
    by (simp add: batch_persistence_def flush_due_def Let_def)
next
  case (fail e t1)
  then show ?thesis
    using ok by simp
next
  case (add l rs t1)
  then have "fetched w (processed_symbols st + 1) key \<noteq> []"
    by auto
  then show ?thesis
    using add by (simp add: batch_persistence_def flush_due_def Let_def)
qed

lemma run_once_nothing_pending:
  assumes "run_once w L symbol_lst t = (None, L', st)"
  shows "record_objs st = [] \<and> new_latest st = []
     \<and> persisted_records st
         = (\<Sum>i<length (requests st). length (fetched w (i + 1) (requests st ! i)))"
proof -
  from assms obtain t1 keys L2 where
    L2: "L2 = L\<lparr>mode := ''SLOW'', n_active_symbols := length keys\<rparr>"
    and load: "load_from_keys w L2 keys t1 = (None, st)"
    by (rule run_once_ok)
  have loop: "load_loop w L2 keys (init_state t1) = (None, st)"
    using load by (simp add: load_from_keys_def)
  have reqs: "requests st = keys"
    using load_loop_requests [of w L2 keys "init_state t1"] loop by (simp add: init_state_def)
  have pend: "record_objs st = [] \<and> new_latest st = []"
  proof (cases "keys = []")
    case True
    then have "st = init_state t1"
      using loop by simp
    then show ?thesis
      by (simp add: init_state_def)
  next
    case False
    then show ?thesis
      using load_loop_nothing_pending [of w L2 keys "init_state t1"] loop L2
      by (simp add: init_state_def)
  qed
  have "persisted_records st + length (record_objs st)
      = (\<Sum>i<length keys. length (fetched w (i + 1) (keys ! i)))"
    using load_loop_count [of w L2 keys "init_state t1"] loop by (simp add: init_state_def)
  then show ?thesis
    using pend reqs by simp
qed

lemma key_records_length [simp]:
  "length (key_records w st key) = length (fetched w (processed_symbols st + 1) key)"
  by (simp add: key_records_def Let_def)

lemma key_records_Nil_iff [simp]:
  "key_records w st key = [] \<longleftrightarrow> fetched w (processed_symbols st + 1) key = []"
  using key_records_length [of w st key] by (metis length_0_conv)

lemma ids_taken_tables [simp]:
  "spot (ids_taken w st key) = spot (target st)"
  "spot_latest (ids_taken w st key) = spot_latest (target st)"
  "tx_spot (ids_taken w st key) = tx_spot (target st)"
  "tx_latest (ids_taken w st key) = tx_latest (target st)"
  by (simp_all add: ids_taken_def get_next_ids_def)

lemma process_key_step:
  assumes ok: "fst (process_key w L key st) = None"
  shows "snd (process_key w L key st) =
     batch_persistence L
       (st\<lparr>processed_symbols := processed_symbols st + 1,
           requests := requests st @ [key],
           target := ids_taken w st key,
           new_latest := new_latest st @ key_checkpoint w L st key,
           record_objs := record_objs st @ key_records w st key\<rparr>)"
proof (cases "fetched w (processed_symbols st + 1) key = []")
  case True
  have kr: "key_records w st key = []"
    using True by simp
  have suc: "fetched w (Suc (processed_symbols st)) key = []"
    using True by simp
  show ?thesis
    unfolding process_key_not_fetched [OF True] kr
    by (simp add: key_checkpoint_def ids_taken_def suc)
next
  case False
  let ?bars = "fetched w (processed_symbols st + 1) key"
  have kr: "symbol_records w ?bars (fst (get_next_ids (length ?bars) (target st)))
      = key_records w st key"
    by (simp add: key_records_def Let_def)
  note step = process_key_fetched [OF refl False, of L, unfolded kr]
  show ?thesis
  proof (cases "latest_closed (to_ms w) L (utcnow w (processed_symbols st + 1)) (fst key)
      (key_records w st key)")
    case (Inl e)
    then have "fst (process_key w L key st) = Some e"
      using step by simp
    then show ?thesis
      using ok by simp
  next
    case (Inr l)
    then show ?thesis
      using step False by (simp add: key_checkpoint_def ids_taken_def)
  qed
qed

lemma process_key_flush_content:
  assumes ok: "fst (process_key w L key st) = None"
  shows "if (record_objs st \<noteq> [] \<or> fetched w (processed_symbols st + 1) key \<noteq> [])
            \<and> ((processed_symbols st + 1) mod BATCH_SIZE = 0
                 \<or> processed_symbols st + 1 = n_active_symbols L)
         then flushes (snd (process_key w L key st))
                = flushes st @ [(record_objs st @ key_records w st key,
                     List.map_filter (\<lambda>r. r) (new_latest st @ key_checkpoint w L st key))]
              \<and> target (snd (process_key w L key st))
                = persist_records (record_objs st @ key_records w st key)
                    (List.map_filter (\<lambda>r. r) (new_latest st @ key_checkpoint w L st key))
                    (ids_taken w st key)
              \<and> record_objs (snd (process_key w L key st)) = []
              \<and> new_latest (snd (process_key w L key st)) = []
         else flushes (snd (process_key w L key st)) = flushes st
              \<and> record_objs (snd (process_key w L key st))
                  = record_objs st @ key_records w st key
              \<and> new_latest (snd (process_key w L key st))
                  = new_latest st @ key_checkpoint w L st key
              \<and> target (snd (process_key w L key st)) = ids_taken w st key"
  unfolding process_key_step [OF ok]
  by (simp add: batch_persistence_def flush_due_def Let_def)

lemma upsert_row_keys:
  assumes keyupd: "\<And>r x. key x = key r \<Longrightarrow> key (upd r x) = key x"
  shows "key ` set (upsert_row key upd r tbl) = insert (key r) (key ` set tbl)"
  by (induction tbl) (auto simp: keyupd)

lemma fold_upsert_row_keys:
  assumes keyupd: "\<And>r x. key x = key r \<Longrightarrow> key (upd r x) = key x"
  shows "key ` set (fold (upsert_row key upd) rows tbl) = key ` set rows \<union> key ` set tbl"
proof (induction rows arbitrary: tbl)
  case Nil
  show ?case by simp
next
  case (Cons r rows)
  show ?case
    using Cons [of "upsert_row key upd r tbl"] upsert_row_keys [of key upd r tbl, OF keyupd]
    by auto
qed

lemma spot_UPSERT_keys:
  "spot_key ` set (spot_UPSERT rows tbl) = spot_key ` set rows \<union> spot_key ` set tbl"
  unfolding spot_UPSERT_def
  by (rule fold_upsert_row_keys) (simp add: spot_key_def spot_update_def)

lemma persist_records_spot:
  "spot (persist_records rs ls t) = spot_UPSERT rs (tx_spot t)"
  "tx_spot (persist_records rs ls t) = spot_UPSERT rs (tx_spot t)"
  by (simp_all add: persist_records_def commit_transaction_def Let_def)

lemma process_key_stored:
  assumes ok: "fst (process_key w L key st) = None"
    and inv: "spot_key ` set (concat (map fst (flushes st)))
        \<subseteq> spot_key ` set (tx_spot (target st))"
      "flushes st \<noteq> [] \<longrightarrow> spot (target st) = tx_spot (target st)"
  shows "spot_key ` set (concat (map fst (flushes (snd (process_key w L key st)))))
        \<subseteq> spot_key ` set (tx_spot (target (snd (process_key w L key st))))"
    and "flushes (snd (process_key w L key st)) \<noteq> [] \<longrightarrow>
      spot (target (snd (process_key w L key st)))
        = tx_spot (target (snd (process_key w L key st)))"
proof -
  let ?c = "(record_objs st \<noteq> [] \<or> fetched w (processed_symbols st + 1) key \<noteq> [])
            \<and> ((processed_symbols st + 1) mod BATCH_SIZE = 0
                 \<or> processed_symbols st + 1 = n_active_symbols L)"
  note content = process_key_flush_content [OF ok]
  have "spot_key ` set (concat (map fst (flushes (snd (process_key w L key st)))))
        \<subseteq> spot_key ` set (tx_spot (target (snd (process_key w L key st))))
      \<and> (flushes (snd (process_key w L key st)) \<noteq> [] \<longrightarrow>
      spot (target (snd (process_key w L key st)))
        = tx_spot (target (snd (process_key w L key st))))"
  proof (cases ?c)
    case True
    then have fl: "flushes (snd (process_key w L key st))
                = flushes st @ [(record_objs st @ key_records w st key,
                     List.map_filter (\<lambda>r. r) (new_latest st @ key_checkpoint w L st key))]"
      and tg: "target (snd (process_key w L key st))
                = persist_records (record_objs st @ key_records w st key)
                    (List.map_filter (\<lambda>r. r) (new_latest st @ key_checkpoint w L st key))
                    (ids_taken w st key)"
      using content by simp_all
    show ?thesis
      unfolding fl tg using inv(1)
      by (auto simp: persist_records_spot spot_UPSERT_keys image_Un)
  next
    case False
    then have fl: "flushes (snd (process_key w L key st)) = flushes st"
      and tg: "target (snd (process_key w L key st)) = ids_taken w st key"
      using content by simp_all
    show ?thesis
      unfolding fl tg using inv by simp
  qed
  then show "spot_key ` set (concat (map fst (flushes (snd (process_key w L key st)))))
        \<subseteq> spot_key ` set (tx_spot (target (snd (process_key w L key st))))"
    and "flushes (snd (process_key w L key st)) \<noteq> [] \<longrightarrow>
      spot (target (snd (process_key w L key st)))
        = tx_spot (target (snd (process_key w L key st)))"
    by simp_all
qed

lemma load_loop_stored:
  "fst (load_loop w L keys st) = None \<Longrightarrow>
   spot_key ` set (concat (map fst (flushes st))) \<subseteq> spot_key ` set (tx_spot (target st)) \<Longrightarrow>
   flushes st \<noteq> [] \<longrightarrow> spot (target st) = tx_spot (target st) \<Longrightarrow>
   spot_key ` set (concat (map fst (flushes (snd (load_loop w L keys st)))))
     \<subseteq> spot_key ` set (tx_spot (target (snd (load_loop w L keys st))))
   \<and> (flushes (snd (load_loop w L keys st)) \<noteq> [] \<longrightarrow>
        spot (target (snd (load_loop w L keys st)))
          = tx_spot (target (snd (load_loop w L keys st))))"
proof (induction keys arbitrary: st)
  case Nil
  then show ?case by simp
next
  case (Cons key keys)
  then have ok: "fst (process_key w L key st) = None"
    and rest: "fst (load_loop w L keys (snd (process_key w L key st))) = None"
    by (simp_all add: load_loop_Cons_ok_iff)
  show ?case
    unfolding load_loop_Cons_ok [OF ok]
    by (rule Cons.IH [OF rest process_key_stored [OF ok Cons.prems(2,3)]])
qed

lemma process_key_emitted:
  assumes ok: "fst (process_key w L key st) = None"
  shows "emitted_records (snd (process_key w L key st))
     = emitted_records st @ key_records w st key"
  unfolding process_key_step [OF ok] emitted_records_batch_persistence
  by (simp add: emitted_records_def)

lemma key_records_keys:
  "map spot_key (key_records w st key)
     = map (\<lambda>b. (b_symbol b, b_timestamp b)) (fetched w (processed_symbols st + 1) key)"
proof -
  let ?bars = "fetched w (processed_symbols st + 1) key"
  let ?ids = "fst (get_next_ids (length ?bars) (target st))"
  have len: "length ?ids = length ?bars"
    by (simp add: get_next_ids_def)
  have "map spot_key (key_records w st key)
      = map (\<lambda>b. (b_symbol b, b_timestamp b)) (map fst (zip ?bars ?ids))"
    by (simp add: key_records_def Let_def symbol_records_def spot_key_def build_record_def
        case_prod_unfold comp_def)
  also have "map fst (zip ?bars ?ids) = ?bars"
    using len by (simp add: map_fst_zip)
  finally show ?thesis .
qed

lemma load_loop_emitted_mono:
  "fst (load_loop w L keys st) = None \<Longrightarrow>
   set (emitted_records st) \<subseteq> set (emitted_records (snd (load_loop w L keys st)))"
proof (induction keys arbitrary: st)
  case Nil
  then show ?case by simp
next
  case (Cons key keys)
  then have ok: "fst (process_key w L key st) = None"
    and rest: "fst (load_loop w L keys (snd (process_key w L key st))) = None"
    by (simp_all add: load_loop_Cons_ok_iff)
  show ?case
    using Cons.IH [OF rest] by (auto simp: load_loop_Cons_ok [OF ok] process_key_emitted [OF ok])
qed

lemma load_loop_emitted_keys:
  "fst (load_loop w L keys st) = None \<Longrightarrow> i < length keys \<Longrightarrow>
   b \<in> set (fetched w (processed_symbols st + 1 + i) (keys ! i)) \<Longrightarrow>
   (b_symbol b, b_timestamp b) \<in> spot_key ` set (emitted_records (snd (load_loop w L keys st)))"
proof (induction keys arbitrary: st i)
  case Nil
  then show ?case by simp
next
  case (Cons key keys)
  then have ok: "fst (process_key w L key st) = None"
    and rest: "fst (load_loop w L keys (snd (process_key w L key st))) = None"
    by (simp_all add: load_loop_Cons_ok_iff)
  show ?case
  proof (cases i)
    case 0
    then have "(b_symbol b, b_timestamp b)
        \<in> set (map (\<lambda>b. (b_symbol b, b_timestamp b)) (fetched w (processed_symbols st + 1) key))"
      using Cons.prems(3) by simp
    then have "(b_symbol b, b_timestamp b) \<in> spot_key ` set (key_records w st key)"
      unfolding key_records_keys [symmetric] by simp
    then have "(b_symbol b, b_timestamp b)
        \<in> spot_key ` set (emitted_records (snd (process_key w L key st)))"
      by (auto simp: process_key_emitted [OF ok])
    then show ?thesis
      using load_loop_emitted_mono [OF rest] by (auto simp: load_loop_Cons_ok [OF ok])
  next
    case (Suc j)
    then have "j < length keys"
      and "b \<in> set (fetched w (processed_symbols (snd (process_key w L key st)) + 1 + j)
              (keys ! j))"
      using Cons.prems(2,3) by (simp_all add: process_key_processed)
    then show ?thesis
      using Cons.IH [OF rest] by (simp add: load_loop_Cons_ok [OF ok])
  qed
qed

lemma run_once_bars_stored:
  assumes run: "run_once w L symbol_lst t = (None, L', st)"
    and i: "i < length (requests st)"
    and b: "b \<in> set (fetched w (i + 1) (requests st ! i))"
  shows "\<exists>x \<in> set (spot (target st)). symbol x = b_symbol b \<and> open_time x = b_timestamp b"
proof -
  from run obtain t1 keys L2 where load: "load_from_keys w L2 keys t1 = (None, st)"
    by (rule run_once_ok)
  have loop: "load_loop w L2 keys (init_state t1) = (None, st)"
    using load by (simp add: load_from_keys_def)
  have reqs: "requests st = keys"
    using load_loop_requests [of w L2 keys "init_state t1"] loop by (simp add: init_state_def)
  have pend: "record_objs st = []"
    using run_once_nothing_pending [OF run] by simp
  have "(b_symbol b, b_timestamp b) \<in> spot_key ` set (emitted_records st)"
    using load_loop_emitted_keys [of w L2 keys "init_state t1" i b] loop i b reqs
    by (simp add: init_state_def)
  then have fl: "(b_symbol b, b_timestamp b) \<in> spot_key ` set (concat (map fst (flushes st)))"
    using pend by (simp add: emitted_records_def)
  then have ne: "flushes st \<noteq> []"
    by auto
  have "spot_key ` set (concat (map fst (flushes st))) \<subseteq> spot_key ` set (tx_spot (target st))
      \<and> (flushes st \<noteq> [] \<longrightarrow> spot (target st) = tx_spot (target st))"
    using load_loop_stored [of w L2 keys "init_state t1"] loop by (simp add: init_state_def)
  then have "(b_symbol b, b_timestamp b) \<in> spot_key ` set (spot (target st))"
    using fl ne by auto
  then show ?thesis
    by (auto simp: spot_key_def)
qed

text \<open>
  Claim C3, amended.  In a pass of the loop that raises nothing, \<^verbatim>\<open>persist_records\<close> is
  called exactly when some record is pending (from earlier symbols or from this one) and
  the number of symbols processed so far is a multiple of 1000 or equals the active-symbol
  count.  The call takes all pending records and all pending checkpoints, those of this
  pass included, the storage becomes what \<^verbatim>\<open>persist_records\<close> makes of them, and nothing
  stays pending.  Otherwise the pass flushes nothing, leaves the tables as they are and
  keeps the records and the checkpoint of this pass pending behind the earlier ones.  The
  threshold counts symbols, not records.  At the end of a cycle that raises nothing, no
  record and no checkpoint is left pending, the number of persisted records is the number
  of bars the requests of the cycle returned, and the committed bar table holds a row with
  the symbol and the open time of every bar returned: the final partial batch is flushed.
\<close>

theorem flush_on_symbol_count:
  "(fst (process_key w L key st) = None \<longrightarrow>
      length (key_records w st key) = length (fetched w (processed_symbols st + 1) key)
      \<and> (if (record_objs st \<noteq> [] \<or> fetched w (processed_symbols st + 1) key \<noteq> [])
            \<and> ((processed_symbols st + 1) mod 1000 = 0
                 \<or> processed_symbols st + 1 = n_active_symbols L)
          then flushes (snd (process_key w L key st))
                 = flushes st @ [(record_objs st @ key_records w st key,
                      List.map_filter (\<lambda>r. r) (new_latest st @ key_checkpoint w L st key))]
               \<and> target (snd (process_key w L key st))
                 = persist_records (record_objs st @ key_records w st key)
                     (List.map_filter (\<lambda>r. r) (new_latest st @ key_checkpoint w L st key))
                     (ids_taken w st key)
               \<and> record_objs (snd (process_key w L key st)) = []
               \<and> new_latest (snd (process_key w L key st)) = []
          else flushes (snd (process_key w L key st)) = flushes st
               \<and> record_objs (snd (process_key w L key st))
                   = record_objs st @ key_records w st key
               \<and> new_latest (snd (process_key w L key st))
                   = new_latest st @ key_checkpoint w L st key
               \<and> target (snd (process_key w L key st)) = ids_taken w st key))
   \<and> (run_once w L symbol_lst t = (None, L', st') \<longrightarrow>
        record_objs st' = [] \<and> new_latest st' = []
        \<and> persisted_records st'
            = (\<Sum>i<length (requests st'). length (fetched w (i + 1) (requests st' ! i)))
        \<and> persisted_records st' = length (concat (map fst (flushes st')))
        \<and> (\<forall>i < length (requests st'). \<forall>b \<in> set (fetched w (i + 1) (requests st' ! i)).
              \<exists>x \<in> set (spot (target st')).
                symbol x = b_symbol b \<and> open_time x = b_timestamp b))"
proof (intro conjI impI)
  assume ok: "fst (process_key w L key st) = None"
  show "length (key_records w st key) = length (fetched w (processed_symbols st + 1) key)"
    by simp
  show "if (record_objs st \<noteq> [] \<or> fetched w (processed_symbols st + 1) key \<noteq> [])
            \<and> ((processed_symbols st + 1) mod 1000 = 0
                 \<or> processed_symbols st + 1 = n_active_symbols L)
          then flushes (snd (process_key w L key st))
                 = flushes st @ [(record_objs st @ key_records w st key,
                      List.map_filter (\<lambda>r. r) (new_latest st @ key_checkpoint w L st key))]
               \<and> target (snd (process_key w L key st))
                 = persist_records (record_objs st @ key_records w st key)
                     (List.map_filter (\<lambda>r. r) (new_latest st @ key_checkpoint w L st key))
                     (ids_taken w st key)
               \<and> record_objs (snd (process_key w L key st)) = []
               \<and> new_latest (snd (process_key w L key st)) = []
          else flushes (snd (process_key w L key st)) = flushes st
               \<and> record_objs (snd (process_key w L key st))
                   = record_objs st @ key_records w st key
               \<and> new_latest (snd (process_key w L key st))
                   = new_latest st @ key_checkpoint w L st key
               \<and> target (snd (process_key w L key st)) = ids_taken w st key"
    using process_key_flush_content [OF ok] unfolding BATCH_SIZE_def .
next
  assume run: "run_once w L symbol_lst t = (None, L', st')"
  show "record_objs st' = []" "new_latest st' = []"
    "persisted_records st'
       = (\<Sum>i<length (requests st'). length (fetched w (i + 1) (requests st' ! i)))"
    using run_once_nothing_pending [OF run] by simp_all
  from run obtain t1 keys L2 where load: "load_from_keys w L2 keys t1 = (None, st')"
    by (rule run_once_ok)
  then show "persisted_records st' = length (concat (map fst (flushes st')))"
    using load_loop_flushed_count [of "init_state t1" w L2 keys]
    by (simp add: load_from_keys_def init_state_def)
  show "\<forall>i < length (requests st'). \<forall>b \<in> set (fetched w (i + 1) (requests st' ! i)).
          \<exists>x \<in> set (spot (target st')). symbol x = b_symbol b \<and> open_time x = b_timestamp b"
    using run_once_bars_stored [OF run] by blast
qed

lemma hourly_bars_length [simp]: "length (hourly_bars s ts n) = n"
  by (induction n arbitrary: ts) simp_all

text \<open>
  Claim C3, as stated, triggers a flush when the pending record count crosses 1000.  With
  three symbols returning 600 bars, 600 bars and one bar, nothing is flushed after the
  first symbol, and nothing after the second although 1200 records are pending; the cycle
  flushes once, after the third symbol, a batch of 1201 records.
\<close>

theorem no_flush_at_thousand_records_counterexample:
  "length (record_objs (snd (process_key (world_of backlog noon None)
       (loader_1h\<lparr>mode := ''SLOW'', n_active_symbols := 3\<rparr>) (''A'', earliest)
       (init_state empty_target)))) = 600
   \<and> flushes (snd (process_key (world_of backlog noon None)
       (loader_1h\<lparr>mode := ''SLOW'', n_active_symbols := 3\<rparr>) (''A'', earliest)
       (init_state empty_target))) = []
   \<and> length (record_objs (snd (process_key (world_of backlog noon None)
       (loader_1h\<lparr>mode := ''SLOW'', n_active_symbols := 3\<rparr>) (''B'', earliest)
       (snd (process_key (world_of backlog noon None)
          (loader_1h\<lparr>mode := ''SLOW'', n_active_symbols := 3\<rparr>) (''A'', earliest)
          (init_state empty_target)))))) = 1200
   \<and> flushes (snd (process_key (world_of backlog noon None)
       (loader_1h\<lparr>mode := ''SLOW'', n_active_symbols := 3\<rparr>) (''B'', earliest)
       (snd (process_key (world_of backlog noon None)
          (loader_1h\<lparr>mode := ''SLOW'', n_active_symbols := 3\<rparr>) (''A'', earliest)
          (init_state empty_target))))) = []
   \<and> map (length \<circ> fst)
       (flushes (snd (snd (run_once (world_of backlog noon None) loader_1h
          [''A'', ''B'', ''C''] empty_target)))) = [1201]"
proof -
  let ?W = "world_of backlog noon None"
  let ?L = "loader_1h\<lparr>mode := ''SLOW'', n_active_symbols := 3\<rparr>"
  let ?st0 = "init_state empty_target"
  let ?st1 = "snd (process_key ?W ?L (''A'', earliest) ?st0)"
  let ?st2 = "snd (process_key ?W ?L (''B'', earliest) ?st1)"
  let ?st3 = "snd (process_key ?W ?L (''C'', earliest) ?st2)"
  have p0: "processed_symbols ?st0 = 0" "record_objs ?st0 = []" "flushes ?st0 = []"
    "persisted_records ?st0 = 0"
    by (simp_all add: init_state_def)
  have fA: "fetched ?W (processed_symbols ?st0 + 1) (''A'', earliest) = hourly_bars ''A'' 0 600"
    by (simp add: fetched_def world_of_def backlog_def)
  have ok1: "fst (process_key ?W ?L (''A'', earliest) ?st0) = None"
    using fA by (intro process_key_ok_many) simp
  have fl1: "flushes ?st1 = []"
    using process_key_flush [OF ok1] fA p0 by (simp add: BATCH_SIZE_def)
  have "persisted_records ?st1 = length (concat (map fst (flushes ?st1)))"
    by (rule process_key_flushed_count) (simp add: p0)
  then have pr1: "persisted_records ?st1 = 0"
    by (simp add: fl1)
  have len1: "length (record_objs ?st1) = 600"
    using process_key_count [OF ok1] fA p0 pr1 by simp
  have p1: "processed_symbols ?st1 = 1"
    by (simp add: process_key_processed p0)
  have fB: "fetched ?W (processed_symbols ?st1 + 1) (''B'', earliest) = hourly_bars ''B'' 0 600"
    by (simp add: fetched_def world_of_def backlog_def)
  have ok2: "fst (process_key ?W ?L (''B'', earliest) ?st1) = None"
    using fB by (intro process_key_ok_many) simp
  have fl2: "flushes ?st2 = []"
    using process_key_flush [OF ok2] fB p1 fl1 by (simp add: BATCH_SIZE_def)
  have "persisted_records ?st2 = length (concat (map fst (flushes ?st2)))"
    by (rule process_key_flushed_count) (simp add: pr1 fl1)
  then have pr2: "persisted_records ?st2 = 0"
    by (simp add: fl2)
  have len2: "length (record_objs ?st2) = 1200"
    using process_key_count [OF ok2] fB pr1 pr2 len1 by simp
  have p2: "processed_symbols ?st2 = 2"
    by (simp add: process_key_processed p0)
  have fC: "fetched ?W (processed_symbols ?st2 + 1) (''C'', earliest) = [bar_at ''C'' 0]"
    by (simp add: fetched_def world_of_def backlog_def numeral_eq_Suc)
  have "check_active (to_ms ?W) (interval ?L) (utcnow ?W (processed_symbols ?st2 + 1))
          (b_timestamp (bar_at ''C'' 0)) = Inr False"
    by (simp add: world_of_def loader_1h_def check_active_1h noon_def hour_def ms_of_def
        bar_at_def)
  then have ok3: "fst (process_key ?W ?L (''C'', earliest) ?st2) = None"
    by (rule process_key_ok_single [OF fC])
  have ne2: "record_objs ?st2 \<noteq> []"
    using len2 by auto
  have fl3: "length (flushes ?st3) = 1 \<and> length (fst (last (flushes ?st3))) = 1201"
    using process_key_flush [OF ok3] ne2 fC p2 fl2 len2 by simp
  then obtain batch where b: "flushes ?st3 = [batch]"
    by (cases "flushes ?st3") auto
  have sizes: "map (length \<circ> fst) (flushes ?st3) = [1201]"
    using fl3 b by simp
  have loop: "load_loop ?W ?L [(''A'', earliest), (''B'', earliest), (''C'', earliest)] ?st0
      = (None, ?st3)"
    using ok1 ok2 ok3 by (simp add: load_loop_Cons_ok)
  have c: "check_trading_status ?W (loader_1h\<lparr>mode := ''SLOW''\<rparr>) empty_target
      = Inr empty_target"
    by (simp add: check_trading_status_def get_inactive_symbols_def get_trading_status_def
        world_of_def empty_target_def)
  have k: "get_keys (loader_1h\<lparr>mode := ''SLOW''\<rparr>) empty_target [''A'', ''B'', ''C'']
      = Inr ([(''A'', earliest), (''B'', earliest), (''C'', earliest)], ?L)"
    by (simp add: get_keys_def get_latest_def empty_target_def numeral_3_eq_3)
  have "run_once ?W loader_1h [''A'', ''B'', ''C''] empty_target = (None, ?L, ?st3)
      \<or> run_once ?W loader_1h [''A'', ''B'', ''C''] empty_target
          = (None, ?L\<lparr>mode := ''FAST''\<rparr>, ?st3)"
    by (auto simp: run_once_def Let_def c k load_from_keys_def loop)
  then have "snd (snd (run_once ?W loader_1h [''A'', ''B'', ''C''] empty_target)) = ?st3"
    by auto
  then show ?thesis
    using len1 fl1 len2 fl2 sizes by simp
qed

text \<open>
  The amended claim C3 on the scenario of one new symbol with three bars: the only pass is
  the last one of the cycle, it flushes the three records and the checkpoint of the second
  bar, which are then the content of the two committed tables, and the cycle ends with
  nothing pending and a row for the bar of 01:00.
\<close>

theorem flush_on_symbol_count_witness:
  "fst (process_key (world_of three_bars noon None)
         (loader_1h\<lparr>mode := ''SLOW'', n_active_symbols := 1\<rparr>) (''XYZ'', earliest)
         (init_state empty_target)) = None
   \<and> flushes (snd (process_key (world_of three_bars noon None)
         (loader_1h\<lparr>mode := ''SLOW'', n_active_symbols := 1\<rparr>) (''XYZ'', earliest)
         (init_state empty_target)))
       = [([record_at 1 ''XYZ'' 0, record_at 2 ''XYZ'' hour, record_at 3 ''XYZ'' (2 * hour)],
           [\<lparr> l_symbol = ''XYZ'', l_id = 2, latest_close = hour, active = True,
              source = ''ALPACA'' \<rparr>])]
   \<and> spot (target (snd (process_key (world_of three_bars noon None)
         (loader_1h\<lparr>mode := ''SLOW'', n_active_symbols := 1\<rparr>) (''XYZ'', earliest)
         (init_state empty_target))))
       = [record_at 1 ''XYZ'' 0, record_at 2 ''XYZ'' hour, record_at 3 ''XYZ'' (2 * hour)]
   \<and> spot_latest (target (snd (process_key (world_of three_bars noon None)
         (loader_1h\<lparr>mode := ''SLOW'', n_active_symbols := 1\<rparr>) (''XYZ'', earliest)
         (init_state empty_target))))
       = [\<lparr> l_symbol = ''XYZ'', l_id = 2, latest_close = hour, active = True,
            source = ''ALPACA'' \<rparr>]
   \<and> run_once (world_of three_bars noon None) loader_1h [''XYZ''] empty_target
     = (None,
        fst (snd (run_once (world_of three_bars noon None) loader_1h [''XYZ''] empty_target)),
        snd (snd (run_once (world_of three_bars noon None) loader_1h [''XYZ''] empty_target)))
   \<and> record_objs
        (snd (snd (run_once (world_of three_bars noon None) loader_1h [''XYZ''] empty_target)))
       = []
   \<and> persisted_records
        (snd (snd (run_once (world_of three_bars noon None) loader_1h [''XYZ''] empty_target)))
       = 3
   \<and> 0 < length (requests
        (snd (snd (run_once (world_of three_bars noon None) loader_1h [''XYZ''] empty_target))))
   \<and> bar_at ''XYZ'' hour \<in> set (fetched (world_of three_bars noon None) (0 + 1)
        (requests (snd (snd (run_once (world_of three_bars noon None) loader_1h [''XYZ'']
           empty_target))) ! 0))
   \<and> (\<exists>x \<in> set (spot (target
        (snd (snd (run_once (world_of three_bars noon None) loader_1h [''XYZ''] empty_target))))).
        symbol x = ''XYZ'' \<and> open_time x = hour)"
proof -
  let ?W = "world_of three_bars noon None"
  let ?L = "loader_1h\<lparr>mode := ''SLOW'', n_active_symbols := 1\<rparr>"
  let ?st0 = "init_state empty_target"
  let ?key = "(''XYZ'', earliest)"
  let ?R = "run_once ?W loader_1h [''XYZ''] empty_target"
  let ?rs = "[record_at 1 ''XYZ'' 0, record_at 2 ''XYZ'' hour, record_at 3 ''XYZ'' (2 * hour)]"
  let ?cp = "\<lparr> l_symbol = ''XYZ'', l_id = 2, latest_close = hour, active = True,
              source = ''ALPACA'' \<rparr>"
  have ok: "fst (process_key ?W ?L ?key ?st0) = None"
    by code_simp
  have cond: "(record_objs ?st0 \<noteq> [] \<or> fetched ?W (processed_symbols ?st0 + 1) ?key \<noteq> [])
      \<and> ((processed_symbols ?st0 + 1) mod 1000 = 0
           \<or> processed_symbols ?st0 + 1 = n_active_symbols ?L)"
    by (simp add: init_state_def fetched_def world_of_def three_bars_def)
  have pending: "record_objs ?st0 = []" "new_latest ?st0 = []" "flushes ?st0 = []"
    by (simp_all add: init_state_def)
  have kr: "key_records ?W ?st0 ?key = ?rs"
    by code_simp
  have kc: "key_checkpoint ?W ?L ?st0 ?key = [Some ?cp]"
    by code_simp
  have stored: "spot (persist_records ?rs [?cp] (ids_taken ?W ?st0 ?key)) = ?rs"
    "spot_latest (persist_records ?rs [?cp] (ids_taken ?W ?st0 ?key)) = [?cp]"
    by code_simp+
  note pass = flush_on_symbol_count [of ?W ?L ?key ?st0, THEN conjunct1, THEN mp, OF ok,
    THEN conjunct2]
  have flushed: "flushes (snd (process_key ?W ?L ?key ?st0))
        = flushes ?st0 @ [(record_objs ?st0 @ key_records ?W ?st0 ?key,
             List.map_filter (\<lambda>r. r) (new_latest ?st0 @ key_checkpoint ?W ?L ?st0 ?key))]
      \<and> target (snd (process_key ?W ?L ?key ?st0))
        = persist_records (record_objs ?st0 @ key_records ?W ?st0 ?key)
            (List.map_filter (\<lambda>r. r) (new_latest ?st0 @ key_checkpoint ?W ?L ?st0 ?key))
            (ids_taken ?W ?st0 ?key)
      \<and> record_objs (snd (process_key ?W ?L ?key ?st0)) = []
      \<and> new_latest (snd (process_key ?W ?L ?key ?st0)) = []"
    using pass cond by (simp only: if_True)
  have mf: "List.map_filter (\<lambda>r. r) ([] @ [Some ?cp]) = [?cp]"
    by (simp add: List.map_filter_simps)
  have fl: "flushes (snd (process_key ?W ?L ?key ?st0)) = [(?rs, [?cp])]"
    using flushed unfolding pending kr kc mf by simp
  have tg: "target (snd (process_key ?W ?L ?key ?st0))
      = persist_records ?rs [?cp] (ids_taken ?W ?st0 ?key)"
    using flushed unfolding pending kr kc mf by simp
  have "fst ?R = None"
    by code_simp
  then have run: "?R = (None, fst (snd ?R), snd (snd ?R))"
    by (metis prod.collapse)
  note cycle = flush_on_symbol_count [where w = ?W and L = loader_1h
      and symbol_lst = "[''XYZ'']" and t = empty_target and L' = "fst (snd ?R)"
      and st' = "snd (snd ?R)", THEN conjunct2, THEN mp, OF run]
  have none: "record_objs (snd (snd ?R)) = []"
    using cycle by (rule conjunct1)
  have cnt: "persisted_records (snd (snd ?R)) = 3"
    by code_simp
  have reqs: "requests (snd (snd ?R)) = [?key]"
    by code_simp
  have i: "0 < length (requests (snd (snd ?R)))"
    unfolding reqs by simp
  have b: "bar_at ''XYZ'' hour \<in> set (fetched ?W (0 + 1) (requests (snd (snd ?R)) ! 0))"
    unfolding reqs by (simp add: fetched_def world_of_def three_bars_def)
  have "\<forall>i < length (requests (snd (snd ?R))).
      \<forall>b \<in> set (fetched ?W (i + 1) (requests (snd (snd ?R)) ! i)).
        \<exists>x \<in> set (spot (target (snd (snd ?R)))).
          symbol x = b_symbol b \<and> open_time x = b_timestamp b"
    using cycle by (rule_tac conjunct2 [OF conjunct2 [OF conjunct2 [OF conjunct2]]])
  then have "\<exists>x \<in> set (spot (target (snd (snd ?R)))).
      symbol x = b_symbol (bar_at ''XYZ'' hour) \<and> open_time x = b_timestamp (bar_at ''XYZ'' hour)"
    using i b by blast
  then have row: "\<exists>x \<in> set (spot (target (snd (snd ?R)))). symbol x = ''XYZ'' \<and> open_time x = hour"
    by (simp add: bar_at_def)
  show ?thesis
    unfolding fl tg stored
    by (intro conjI) (fact ok refl run none cnt i b row)+
qed

section \<open>Trading-status reconciliation: properties\<close>

text \<open>
  Claim C5, as stated, has no bars fetched for a reactivated symbol in the cycle that
  reactivates it.  \<^verbatim>\<open>run_once\<close> calls \<^verbatim>\<open>check_trading_status\<close> before \<^verbatim>\<open>get_keys\<close>: with the
  only checkpoint switched off and the provider reporting the symbol tradable, the same
  cycle requests the bars after the checkpoint, stores the two bars returned and leaves
  the checkpoint active.
\<close>

theorem reactivated_symbol_fetched_same_cycle_counterexample:
  "map active (spot_latest dormant_target) = [False]
   \<and> fst (run_once (world_of later_bars noon tradable_again) loader_1h [''XYZ''] dormant_target)
       = None
   \<and> requests (snd (snd (run_once (world_of later_bars noon tradable_again) loader_1h
         [''XYZ''] dormant_target))) = [(''XYZ'', 3600000000)]
   \<and> map symbol (spot (target (snd (snd (run_once (world_of later_bars noon tradable_again)
         loader_1h [''XYZ''] dormant_target))))) = [''XYZ'', ''XYZ'']
   \<and> map active (spot_latest (target (snd (snd (run_once
         (world_of later_bars noon tradable_again) loader_1h [''XYZ''] dormant_target)))))
       = [True]"
  by code_simp

lemma mem_nonempty: "x \<in> set xs \<Longrightarrow> xs \<noteq> []"
  by auto

lemma map_of_all_True:
  "(k, True) \<in> set xs \<Longrightarrow> \<forall>(k', v) \<in> set xs. v \<Longrightarrow> map_of xs k = Some True"
  by (induction xs) auto

lemma get_next_interval_1h:
  "get_next_interval ''1h'' ts = Inr r \<Longrightarrow> r = ts + 3600000000"
  by (simp add: get_next_interval_def datetime_add_def Let_def interval_eval split: if_splits)

lemma active_keys_mem:
  "active_keys iv rows = Inr ks \<Longrightarrow> (s, lc, True) \<in> set rows \<Longrightarrow>
   \<exists>ts. get_next_interval iv lc = Inr ts \<and> (s, ts) \<in> set ks"
proof (induction iv rows arbitrary: ks rule: active_keys.induct)
  case (1 iv)
  then show ?case by simp
next
  case (2 iv s' lc' a rest)
  show ?case
  proof (cases a)
    case True
    then obtain ts' ks' where ts': "get_next_interval iv lc' = Inr ts'"
      and ks': "active_keys iv rest = Inr ks'" and ks: "ks = (s', ts') # ks'"
      using "2.prems"(1) by (auto split: sum.splits)
    show ?thesis
    proof (cases "(s, lc, True) = (s', lc', a)")
      case True
      then show ?thesis using ts' ks by auto
    next
      case False
      then have "(s, lc, True) \<in> set rest"
        using "2.prems"(2) by auto
      then show ?thesis
        using "2.IH"(1) [OF True ts' ks'] ks by auto
    qed
  next
    case False
    then have "(s, lc, True) \<in> set rest"
      using "2.prems"(2) by auto
    then show ?thesis
      using "2.IH"(2) [OF False] "2.prems"(1) False by auto
  qed
qed

lemma get_keys_active_mem:
  assumes "get_keys L t symbol_lst = Inr (keys, L2)"
    and "l \<in> set (tx_latest t)" and "active l"
  shows "\<exists>ts. get_next_interval (interval L) (latest_close l) = Inr ts
           \<and> (l_symbol l, ts) \<in> set keys"
proof -
  have mem: "(l_symbol l, latest_close l, True) \<in> set (get_latest t)"
    using assms(2,3) by (force simp: get_latest_def)
  then have ne: "get_latest t \<noteq> []"
    by auto
  obtain ks where ks: "active_keys (interval L) (get_latest t) = Inr ks"
    and sub: "set ks \<subseteq> set keys"
    using assms(1) ne by (auto simp: get_keys_def Let_def split: sum.splits)
  show ?thesis
    using active_keys_mem [OF ks mem] sub by auto
qed

lemma check_trading_status_reactivates:
  assumes iv: "interval L = ''1h''"
    and l: "l \<in> set (tx_latest t)" "\<not> active l"
    and assets: "get_all_assets w = Some as" "(l_symbol l, True) \<in> set as"
  shows "\<exists>t1. check_trading_status w L t = Inr t1
           \<and> l\<lparr>active := True\<rparr> \<in> set (spot_latest t1)
           \<and> tx_latest t1 = spot_latest t1
           \<and> map l_symbol (spot_latest t1) = map l_symbol (tx_latest t)
           \<and> map latest_close (spot_latest t1) = map latest_close (tx_latest t)
           \<and> map l_id (spot_latest t1) = map l_id (tx_latest t)"
proof -
  define inactive where "inactive = get_inactive_symbols t"
  define ts where "ts = filter (\<lambda>(s, tradable). s \<in> set inactive) as"
  define act where "act = filter (\<lambda>(s, a). a) ts"
  define f where
    "f = (\<lambda>l :: Latest. case map_of act (l_symbol l) of None \<Rightarrow> l | Some a \<Rightarrow> l\<lparr>active := a\<rparr>)"
  define tbl where "tbl = map f (tx_latest t)"
  have inact: "l_symbol l \<in> set inactive"
    using l by (auto simp: inactive_def get_inactive_symbols_def)
  then have ne: "inactive \<noteq> []"
    by auto
  have status: "get_trading_status (get_all_assets w) inactive = Some ts"
    using ne by (simp add: get_trading_status_def assets(1) ts_def)
  have mem_ts: "(l_symbol l, True) \<in> set ts"
    using assets(2) inact by (simp add: ts_def)
  then have mem: "(l_symbol l, True) \<in> set act"
    by (simp add: act_def)
  have ne2: "ts \<noteq> []" "act \<noteq> []"
    using mem mem_ts by auto
  have corr: "CORRECT_TRADING_STATUS (interval L) act (tx_latest t) = Inr tbl"
    by (simp add: CORRECT_TRADING_STATUS_def latest_table_def iv tbl_def f_def)
  have res: "check_trading_status w L t = Inr (commit_transaction (t\<lparr>tx_latest := tbl\<rparr>))"
    unfolding check_trading_status_def Let_def inactive_def [symmetric] status
    using ne2 corr by (simp add: act_def [symmetric])
  have "\<forall>(k', v) \<in> set act. v"
    by (auto simp: act_def)
  then have "map_of act (l_symbol l) = Some True"
    by (rule map_of_all_True [OF mem])
  then have "f l = l\<lparr>active := True\<rparr>"
    by (simp add: f_def)
  then have flip: "l\<lparr>active := True\<rparr> \<in> set tbl"
    unfolding tbl_def using l(1) by (metis image_eqI set_map)
  have same: "l_symbol (f x) = l_symbol x" "latest_close (f x) = latest_close x"
    "l_id (f x) = l_id x" for x
    by (simp_all add: f_def split: option.splits)
  have maps: "map l_symbol tbl = map l_symbol (tx_latest t)"
    "map latest_close tbl = map latest_close (tx_latest t)"
    "map l_id tbl = map l_id (tx_latest t)"
    by (simp_all add: tbl_def comp_def same)
  have "spot_latest (commit_transaction (t\<lparr>tx_latest := tbl\<rparr>)) = tbl"
    "tx_latest (commit_transaction (t\<lparr>tx_latest := tbl\<rparr>)) = tbl"
    by (simp_all add: commit_transaction_def)
  then show ?thesis
    using flip maps res by simp
qed

text \<open>
  Claim C5, amended, for the interval \<^verbatim>\<open>1h\<close>.  For a checkpoint that is switched off and
  whose symbol the provider reports tradable, \<^verbatim>\<open>check_trading_status\<close> raises nothing and
  commits at once: the committed table holds the checkpoint with the flag true, nothing is
  left uncommitted, and symbols and timestamps of all checkpoints are unchanged.  The
  fetch plan computed from that store in the same cycle contains the symbol with the start
  one hour after its checkpoint, and a cycle that raises nothing requests bars for it.
\<close>

theorem reactivated_symbol_enters_plan_at_once:
  "interval L = ''1h'' \<and> l \<in> set (tx_latest t) \<and> \<not> active l
     \<and> get_all_assets w = Some as \<and> (l_symbol l, True) \<in> set as \<longrightarrow>
   (\<exists>t1. check_trading_status w L t = Inr t1
      \<and> l\<lparr>active := True\<rparr> \<in> set (spot_latest t1)
      \<and> tx_latest t1 = spot_latest t1
      \<and> map l_symbol (spot_latest t1) = map l_symbol (tx_latest t)
      \<and> map latest_close (spot_latest t1) = map latest_close (tx_latest t)
      \<and> (\<forall>keys L2. get_keys L t1 symbol_lst = Inr (keys, L2) \<longrightarrow>
            (l_symbol l, latest_close l + 3600000000) \<in> set keys))
   \<and> (\<forall>L' st. run_once w L symbol_lst t = (None, L', st) \<longrightarrow>
         (l_symbol l, latest_close l + 3600000000) \<in> set (requests st))"
proof (intro impI)
  assume a: "interval L = ''1h'' \<and> l \<in> set (tx_latest t) \<and> \<not> active l
     \<and> get_all_assets w = Some as \<and> (l_symbol l, True) \<in> set as"
  have in_keys: "(l_symbol l, latest_close l + 3600000000) \<in> set keys"
    if c: "check_trading_status w M t = Inr t1" and m: "interval M = ''1h''"
      and k: "get_keys M t1 symbol_lst = Inr (keys, L2)" for M t1 keys L2
  proof -
    obtain t1' where t1': "check_trading_status w M t = Inr t1'"
      and flip: "l\<lparr>active := True\<rparr> \<in> set (spot_latest t1')"
      and tx: "tx_latest t1' = spot_latest t1'"
      using check_trading_status_reactivates [of M l t w as] a m by blast
    have "t1' = t1"
      using c t1' by simp
    then have "l\<lparr>active := True\<rparr> \<in> set (tx_latest t1)"
      using flip tx by simp
    then obtain ts where "get_next_interval (interval M) (latest_close l) = Inr ts"
      and "(l_symbol l, ts) \<in> set keys"
      using get_keys_active_mem [OF k, of "l\<lparr>active := True\<rparr>"] by auto
    then show ?thesis
      using get_next_interval_1h [of "latest_close l" ts] m by simp
  qed
  obtain t1 where t1: "check_trading_status w L t = Inr t1"
    and props: "l\<lparr>active := True\<rparr> \<in> set (spot_latest t1)"
      "tx_latest t1 = spot_latest t1"
      "map l_symbol (spot_latest t1) = map l_symbol (tx_latest t)"
      "map latest_close (spot_latest t1) = map latest_close (tx_latest t)"
    using check_trading_status_reactivates [of L l t w as] a by blast
  have first: "\<exists>t1. check_trading_status w L t = Inr t1
      \<and> l\<lparr>active := True\<rparr> \<in> set (spot_latest t1)
      \<and> tx_latest t1 = spot_latest t1
      \<and> map l_symbol (spot_latest t1) = map l_symbol (tx_latest t)
      \<and> map latest_close (spot_latest t1) = map latest_close (tx_latest t)
      \<and> (\<forall>keys L2. get_keys L t1 symbol_lst = Inr (keys, L2) \<longrightarrow>
            (l_symbol l, latest_close l + 3600000000) \<in> set keys)"
    using t1 props in_keys [OF t1] a by blast
  have second: "(l_symbol l, latest_close l + 3600000000) \<in> set (requests st)"
    if run: "run_once w L symbol_lst t = (None, L', st)" for L' st
  proof -
    from run obtain t1 keys L2 where
      c: "check_trading_status w (L\<lparr>mode := ''SLOW''\<rparr>) t = Inr t1"
      and k: "get_keys (L\<lparr>mode := ''SLOW''\<rparr>) t1 symbol_lst = Inr (keys, L2)"
      and load: "load_from_keys w L2 keys t1 = (None, st)"
      by (rule run_once_ok)
    have "requests st = keys"
      using load_loop_requests [of w L2 keys "init_state t1"] load
      by (simp add: load_from_keys_def init_state_def)
    then show ?thesis
      using in_keys [OF c _ k] a by simp
  qed
  show "(\<exists>t1. check_trading_status w L t = Inr t1
      \<and> l\<lparr>active := True\<rparr> \<in> set (spot_latest t1)
      \<and> tx_latest t1 = spot_latest t1
      \<and> map l_symbol (spot_latest t1) = map l_symbol (tx_latest t)
      \<and> map latest_close (spot_latest t1) = map latest_close (tx_latest t)
      \<and> (\<forall>keys L2. get_keys L t1 symbol_lst = Inr (keys, L2) \<longrightarrow>
            (l_symbol l, latest_close l + 3600000000) \<in> set keys))
   \<and> (\<forall>L' st. run_once w L symbol_lst t = (None, L', st) \<longrightarrow>
         (l_symbol l, latest_close l + 3600000000) \<in> set (requests st))"
    using first second by blast
qed

text \<open>
  The amended claim C5 on the store with the single switched-off checkpoint.
\<close>

theorem reactivated_symbol_enters_plan_at_once_witness:
  "interval loader_1h = ''1h''
   \<and> dormant_checkpoint \<in> set (tx_latest dormant_target)
   \<and> \<not> active dormant_checkpoint
   \<and> get_all_assets (world_of no_bars noon tradable_again) = Some [(''XYZ'', True)]
   \<and> (l_symbol dormant_checkpoint, True) \<in> set [(''XYZ'', True)]
   \<and> check_trading_status (world_of no_bars noon tradable_again) loader_1h dormant_target
       = Inr (dormant_target\<lparr>spot_latest := [dormant_checkpoint\<lparr>active := True\<rparr>],
                tx_latest := [dormant_checkpoint\<lparr>active := True\<rparr>]\<rparr>)
   \<and> get_keys loader_1h
         (dormant_target\<lparr>spot_latest := [dormant_checkpoint\<lparr>active := True\<rparr>],
            tx_latest := [dormant_checkpoint\<lparr>active := True\<rparr>]\<rparr>) [''XYZ'']
       = Inr ([(''XYZ'', 3600000000)], loader_1h\<lparr>n_active_symbols := 1\<rparr>)
   \<and> run_once (world_of no_bars noon tradable_again) loader_1h [''XYZ''] dormant_target
     = (None,
        fst (snd (run_once (world_of no_bars noon tradable_again) loader_1h [''XYZ'']
          dormant_target)),
        snd (snd (run_once (world_of no_bars noon tradable_again) loader_1h [''XYZ'']
          dormant_target)))
   \<and> (l_symbol dormant_checkpoint, latest_close dormant_checkpoint + 3600000000)
       \<in> set (requests (snd (snd (run_once (world_of no_bars noon tradable_again) loader_1h
           [''XYZ''] dormant_target))))"
proof -
  let ?W = "world_of no_bars noon tradable_again"
  let ?t1 = "dormant_target\<lparr>spot_latest := [dormant_checkpoint\<lparr>active := True\<rparr>],
                tx_latest := [dormant_checkpoint\<lparr>active := True\<rparr>]\<rparr>"
  let ?R = "run_once ?W loader_1h [''XYZ''] dormant_target"
  have h: "interval loader_1h = ''1h''
    \<and> dormant_checkpoint \<in> set (tx_latest dormant_target)
    \<and> \<not> active dormant_checkpoint
    \<and> get_all_assets ?W = Some [(''XYZ'', True)]
    \<and> (l_symbol dormant_checkpoint, True) \<in> set [(''XYZ'', True)]"
    by (simp add: loader_1h_def dormant_target_def dormant_checkpoint_def world_of_def
        tradable_again_def)
  have c: "check_trading_status ?W loader_1h dormant_target = Inr ?t1"
    by code_simp
  have k: "get_keys loader_1h ?t1 [''XYZ'']
      = Inr ([(''XYZ'', 3600000000)], loader_1h\<lparr>n_active_symbols := 1\<rparr>)"
    by code_simp
  have "fst ?R = None"
    by code_simp
  then have run: "?R = (None, fst (snd ?R), snd (snd ?R))"
    by (metis prod.collapse)
  have inst: "\<forall>L' st. ?R = (None, L', st) \<longrightarrow>
      (l_symbol dormant_checkpoint, latest_close dormant_checkpoint + 3600000000)
        \<in> set (requests st)"
    using reactivated_symbol_enters_plan_at_once
      [of loader_1h dormant_checkpoint dormant_target ?W "[(''XYZ'', True)]" "[''XYZ'']"]
      h by (rule_tac conjunct2) (erule mp)
  have "(l_symbol dormant_checkpoint, latest_close dormant_checkpoint + 3600000000)
        \<in> set (requests (snd (snd ?R)))"
    using inst run by blast
  then show ?thesis
    using h c k run by blast
qed

end
